theory Spec2Isabelle
  imports Main "HOL-Library.Word" "HOL-Library.Signed_Division"
begin

unbundle bit_operations_syntax

section \<open>Machine types of the target (ATmega32U4, avr-gcc)\<close>

text \<open>
  On the AVR target \<open>byte\<close> and \<open>char\<close> are 8 bits, \<open>int\<close> and \<open>unsigned int\<close> are
  16 bits and \<open>unsigned long\<close> is 32 bits. A signed and an unsigned value of one width
  share the word type; the comparison used (\<open><\<close> on the unsigned reading, \<open><s\<close> on
  the two's complement reading) is the one C's conversion rules select at each place.
\<close>

type_synonym byte = "8 word"
type_synonym int16 = "16 word"
type_synonym ulong = "32 word"

section \<open>Constants of MessageBoard.ino\<close>

definition MATRIX_ROWS :: nat where "MATRIX_ROWS = 8"
definition MATRIX_COLUMNS :: nat where "MATRIX_COLUMNS = 120"
definition MATRIX_NUM_ZONES :: nat where "MATRIX_NUM_ZONES = MATRIX_COLUMNS div 8"
definition MATRIX_MAX_ZONE_INDEX :: nat where "MATRIX_MAX_ZONE_INDEX = MATRIX_NUM_ZONES - 1"

text \<open>
  \<open>font8x5.h\<close> is not among the sources. \<open>FONT_PITCH\<close> is the 5 columns of the
  8x5 font, which makes \<open>MATRIX_MAX_CHRS\<close> 24; the character range and the glyph table
  are parameters of the model (record \<open>font\<close> below).
\<close>

definition FONT_PITCH :: nat where "FONT_PITCH = 5"
definition MATRIX_MAX_CHRS :: nat where "MATRIX_MAX_CHRS = MATRIX_COLUMNS div FONT_PITCH"

definition DT_ALIGN_LEFT :: int16 where "DT_ALIGN_LEFT = 0"
definition DT_ALIGN_CENTER :: int16 where "DT_ALIGN_CENTER = 1"
definition DT_ALIGN_RIGHT :: int16 where "DT_ALIGN_RIGHT = 2"

definition DT_STYLE_NORMAL :: int16 where "DT_STYLE_NORMAL = 0"
definition DT_STYLE_INVERSE :: int16 where "DT_STYLE_INVERSE = 1"

definition DIRECTION_LEFT :: int16 where "DIRECTION_LEFT = 0"
definition DIRECTION_RIGHT :: int16 where "DIRECTION_RIGHT = 1"
definition DIRECTION_UP :: int16 where "DIRECTION_UP = 2"
definition DIRECTION_DOWN :: int16 where "DIRECTION_DOWN = 3"

section \<open>The Arduino core's bit macros\<close>

text \<open>
  \<open>bitRead(value, bit)\<close> is \<open>(((value) >> (bit)) & 0x01)\<close>, and
  \<open>bitWrite(value, bit, bitvalue)\<close> is
  \<open>((bitvalue) ? bitSet(value, bit) : bitClear(value, bit))\<close> with
  \<open>bitSet\<close> = \<open>((value) |= (1UL << (bit)))\<close> and
  \<open>bitClear\<close> = \<open>((value) &= ~(1UL << (bit)))\<close>; the result is stored in a byte.
\<close>

definition bitRead :: "byte \<Rightarrow> nat \<Rightarrow> byte" where
  "bitRead v b = drop_bit b v AND 1"

definition bitWrite :: "byte \<Rightarrow> nat \<Rightarrow> byte \<Rightarrow> byte" where
  "bitWrite v b x = (if x \<noteq> 0 then v OR push_bit b 1 else v AND NOT (push_bit b 1))"

section \<open>The frame buffer\<close>

text \<open>
  \<open>display_buffer[MATRIX_ROWS][MATRIX_NUM_ZONES]\<close>: a list of rows, each a list of zone
  bytes. Bit \<open>b\<close> of zone \<open>z\<close> is the LED of column \<open>8 * z + b\<close>.
\<close>

type_synonym row = "byte list"
type_synonym buffer = "row list"

definition buffer_ok :: "buffer \<Rightarrow> bool" where
  "buffer_ok buf \<longleftrightarrow>
     length buf = MATRIX_ROWS \<and> list_all (\<lambda>r. length r = MATRIX_NUM_ZONES) buf"

subsection \<open>matrix_rotate_buffer\<close>

text \<open>
  The body of the zone loop for \<open>DIRECTION_LEFT\<close>, on the row \<open>display_buffer[row]\<close>:
  the byte is shifted right in place, then its bit 7 is written from bit 0 of the next
  zone (not yet shifted), or from the saved byte \<open>t\<close> at the last zone.
\<close>

definition rotate_left_zone :: "byte \<Rightarrow> nat \<Rightarrow> row \<Rightarrow> row" where
  "rotate_left_zone t zone r =
     (let r1 = r[zone := drop_bit 1 (r ! zone)] in
      if zone < MATRIX_MAX_ZONE_INDEX
      then r1[zone := bitWrite (r1 ! zone) 7 (bitRead (r1 ! (zone + 1)) 0)]
      else r1[zone := bitWrite (r1 ! zone) 7 (bitRead t 0)])"

definition rotate_left_row :: "row \<Rightarrow> row" where
  "rotate_left_row r =
     (let t = r ! 0 in fold (rotate_left_zone t) [0..<MATRIX_NUM_ZONES] r)"

text \<open>
  The zone loop for \<open>DIRECTION_RIGHT\<close> runs from the last zone down to zone 0.
\<close>

definition rotate_right_zone :: "byte \<Rightarrow> nat \<Rightarrow> row \<Rightarrow> row" where
  "rotate_right_zone t zone r =
     (let r1 = r[zone := push_bit 1 (r ! zone)] in
      if zone > 0
      then r1[zone := bitWrite (r1 ! zone) 0 (bitRead (r1 ! (zone - 1)) 7)]
      else r1[zone := bitWrite (r1 ! zone) 0 (bitRead t 7)])"

definition rotate_right_row :: "row \<Rightarrow> row" where
  "rotate_right_row r =
     (let t = r ! MATRIX_MAX_ZONE_INDEX
      in fold (rotate_right_zone t) (rev [0..<MATRIX_NUM_ZONES]) r)"

definition matrix_rotate_buffer :: "int16 \<Rightarrow> buffer \<Rightarrow> buffer" where
  "matrix_rotate_buffer roll_dir buf =
     (if roll_dir = DIRECTION_LEFT
      then fold (\<lambda>row b. b[row := rotate_left_row (b ! row)]) [0..<MATRIX_ROWS] buf
      else if roll_dir = DIRECTION_RIGHT
      then fold (\<lambda>row b. b[row := rotate_right_row (b ! row)]) [0..<MATRIX_ROWS] buf
      else buf)"

subsection \<open>matrix_fill_buffer\<close>

definition matrix_fill_buffer :: "byte \<Rightarrow> buffer \<Rightarrow> buffer" where
  "matrix_fill_buffer v buf =
     fold (\<lambda>row b. fold (\<lambda>zone b'. b'[row := (b' ! row)[zone := v]])
                         [0..<Suc MATRIX_MAX_ZONE_INDEX] b)
          [0..<MATRIX_ROWS] buf"

subsection \<open>matrix_draw_pixel\<close>

text \<open>
  \<open>column\<close>, \<open>row\<close> and \<open>value\<close> are C \<open>int\<close>s. Past the bounds check both
  coordinates are non-negative, so \<open>column / 8\<close> and \<open>column % 8\<close> are the quotient
  and remainder of the unsigned reading.
\<close>

definition matrix_draw_pixel :: "int16 \<Rightarrow> int16 \<Rightarrow> int16 \<Rightarrow> buffer \<Rightarrow> buffer" where
  "matrix_draw_pixel column row v buf =
     (if column <s 0 \<or> of_nat (MATRIX_COLUMNS - 1) <s column
         \<or> row <s 0 \<or> of_nat (MATRIX_ROWS - 1) <s row
      then buf
      else
        let zone = unat column div 8;
            bit_index = unat column mod 8;
            old = buf ! unat row ! zone
        in if v \<noteq> 0
           then buf[unat row := (buf ! unat row)[zone := old OR push_bit bit_index 1]]
           else buf[unat row := (buf ! unat row)[zone := old AND NOT (push_bit bit_index 1)]])"

subsection \<open>The font\<close>

record font =
  FONT_FIRST_CHR :: int
  FONT_LAST_CHR :: int
  Font8x5 :: "nat \<Rightarrow> nat \<Rightarrow> byte"

text \<open>
  The glyph index both drawing functions compute from a \<open>char\<close> (signed on this
  target): a code outside the font's range becomes \<open>0x7F\<close>, then \<open>0x1D\<close> is
  subtracted and the result is read as a \<open>byte\<close>.
\<close>

definition glyph_index :: "font \<Rightarrow> byte \<Rightarrow> nat" where
  "glyph_index fnt c =
     (let c1 = (if sint c < FONT_FIRST_CHR fnt \<or> FONT_LAST_CHR fnt < sint c
                then 0x7F else c)
      in unat (c1 - 0x1D))"

subsection \<open>matrix_draw_chr\<close>

definition matrix_draw_chr :: "font \<Rightarrow> int16 \<Rightarrow> byte \<Rightarrow> bool \<Rightarrow> buffer \<Rightarrow> buffer" where
  "matrix_draw_chr fnt column c inv_style buf =
     fold (\<lambda>col b.
        fold (\<lambda>row b'.
           let d = bitRead (Font8x5 fnt (glyph_index fnt c) col) row;
               d' = (if inv_style then (if d = 0 then 1 else 0) else d)
           in matrix_draw_pixel (of_nat col + column) (of_nat row) (ucast d') b')
          [0..<MATRIX_ROWS] b)
       [0..<FONT_PITCH] buf"

subsection \<open>matrix_draw_text\<close>

text \<open>C's \<open>/\<close> on \<open>int\<close>: the quotient truncated towards zero.\<close>

definition c_div :: "int16 \<Rightarrow> int16 \<Rightarrow> int16" where
  "c_div a b = word_of_int (sint a sdiv sint b)"

text \<open>
  A read of \<open>text[i]\<close>. The list holds the characters before the terminating NUL, so
  index \<open>length text\<close> reads the terminator; reads further out are of memory the model
  does not hold.
\<close>

definition text_at :: "byte list \<Rightarrow> int16 \<Rightarrow> byte" where
  "text_at text i = (if unat i < length text then text ! unat i else 0)"

text \<open>
  The \<open>switch (format)\<close> of \<open>matrix_draw_text\<close>: the start column and the index of the
  first character drawn.
\<close>

definition draw_text_start :: "int16 \<Rightarrow> int16 \<Rightarrow> int16 \<times> int16" where
  "draw_text_start count format =
     (if format = DT_ALIGN_CENTER then
        (if count \<le>s of_nat MATRIX_MAX_CHRS
         then (c_div (of_nat MATRIX_COLUMNS) 2 - c_div (count * of_nat FONT_PITCH) 2, 0)
         else (0, c_div (count - of_nat MATRIX_MAX_CHRS) 2))
      else if format = DT_ALIGN_RIGHT then
        (if count \<le>s of_nat MATRIX_MAX_CHRS
         then (of_nat MATRIX_COLUMNS - count * of_nat FONT_PITCH, 0)
         else (0, count - of_nat MATRIX_MAX_CHRS))
      else (0, 0))"

text \<open>
  The drawing loop
  \<open>for (int i = start_index; i < count && column < MATRIX_COLUMNS; i++)\<close>.
\<close>

function draw_text_loop ::
  "font \<Rightarrow> byte list \<Rightarrow> int16 \<Rightarrow> int16 \<Rightarrow> int16 \<Rightarrow> int16 \<Rightarrow> buffer \<Rightarrow> buffer" where
  "draw_text_loop fnt text count style i column buf =
     (if i <s count \<and> column <s of_nat MATRIX_COLUMNS
      then draw_text_loop fnt text count style (i + 1) (column + of_nat FONT_PITCH)
             (matrix_draw_chr fnt column (text_at text i) (style \<noteq> 0) buf)
      else buf)"
  by pat_completeness auto
termination
proof (relation "measure (\<lambda>(fnt, text, count, style, i, column, buf). nat (sint count - sint i))")
  show "wf (measure (\<lambda>(fnt :: font, text :: byte list, count :: int16, style :: int16,
              i :: int16, column :: int16, buf :: buffer). nat (sint count - sint i)))"
    by simp
next
  fix fnt :: font and msg :: "byte list" and count style i column :: int16 and buf :: buffer
  assume a: "i <s count \<and> column <s of_nat MATRIX_COLUMNS"
  have lt: "sint i < sint count" using a by (simp add: word_sless_alt)
  have "sint count < 2 ^ 15" using sint_lt [of count] by simp
  moreover have "- (2 ^ 15) \<le> sint i" using sint_ge [of i] by simp
  ultimately have r: "- (2 ^ 15) \<le> sint i + 1 \<and> sint i + 1 < 2 ^ 15" using lt by simp
  have "sint (i + 1) = signed_take_bit 15 (sint i + 1)"
    by (simp add: sint_word_ariths)
  also have "\<dots> = sint i + 1"
    using r by (simp add: signed_take_bit_int_eq_self)
  finally have s: "sint (i + 1) = sint i + 1" .
  show "((fnt, msg, count, style, i + 1, column + of_nat FONT_PITCH,
          matrix_draw_chr fnt column (text_at msg i) (style \<noteq> 0) buf),
         (fnt, msg, count, style, i, column, buf))
        \<in> measure (\<lambda>(fnt, text, count, style, i, column, buf). nat (sint count - sint i))"
    using lt s by simp
qed

definition matrix_draw_text ::
  "font \<Rightarrow> byte list \<Rightarrow> int16 \<Rightarrow> int16 \<Rightarrow> int16 \<Rightarrow> buffer \<Rightarrow> buffer" where
  "matrix_draw_text fnt text count format style buf =
     (let (column, start_index) = draw_text_start count format
      in draw_text_loop fnt text count style start_index column buf)"

subsection \<open>matrix_shift_buffer\<close>

definition shift_left_zone :: "nat \<Rightarrow> row \<Rightarrow> row" where
  "shift_left_zone zone r =
     (let r1 = r[zone := drop_bit 1 (r ! zone)] in
      if zone < MATRIX_MAX_ZONE_INDEX
      then r1[zone := bitWrite (r1 ! zone) 7 (bitRead (r1 ! (zone + 1)) 0)]
      else r1)"

definition shift_right_zone :: "nat \<Rightarrow> row \<Rightarrow> row" where
  "shift_right_zone zone r =
     (let r1 = r[zone := push_bit 1 (r ! zone)] in
      if zone > 0
      then r1[zone := bitWrite (r1 ! zone) 0 (bitRead (r1 ! (zone - 1)) 7)]
      else r1)"

definition matrix_shift_buffer :: "int16 \<Rightarrow> buffer \<Rightarrow> buffer" where
  "matrix_shift_buffer shift_dir buf =
     (if shift_dir = DIRECTION_LEFT then
        fold (\<lambda>row b. b[row := fold shift_left_zone [0..<MATRIX_NUM_ZONES] (b ! row)])
             [0..<MATRIX_ROWS] buf
      else if shift_dir = DIRECTION_RIGHT then
        fold (\<lambda>row b. b[row := fold shift_right_zone (rev [0..<MATRIX_NUM_ZONES]) (b ! row)])
             [0..<MATRIX_ROWS] buf
      else if shift_dir = DIRECTION_UP then
        fold (\<lambda>row b.
                fold (\<lambda>zone b'.
                        b'[row := (b' ! row)[zone := (if row < 7 then b' ! (row + 1) ! zone else 0)]])
                     [0..<MATRIX_NUM_ZONES] b)
             [0..<MATRIX_ROWS] buf
      else if shift_dir = DIRECTION_DOWN then
        fold (\<lambda>row b.
                fold (\<lambda>zone b'.
                        b'[row := (b' ! row)[zone := (if row > 0 then b' ! (row - 1) ! zone else 0)]])
                     [0..<MATRIX_NUM_ZONES] b)
             (rev [0..<MATRIX_ROWS]) buf
      else buf)"

subsection \<open>matrix_shiftin_chr\<close>

definition matrix_shiftin_chr :: "font \<Rightarrow> byte \<Rightarrow> int16 \<Rightarrow> int16 \<Rightarrow> buffer \<Rightarrow> buffer" where
  "matrix_shiftin_chr fnt c bit_index shift_dir buf =
     (if bit_index <s 0 \<or> 7 <s bit_index then buf
      else
        let g = glyph_index fnt c;
            buf1 = matrix_shift_buffer shift_dir buf;
            column = (if shift_dir = DIRECTION_LEFT then 119 else 0)
        in fold (\<lambda>row b.
                   matrix_draw_pixel column (of_nat row)
                     (ucast (bitRead (Font8x5 fnt g (unat bit_index)) row)) b)
                [0..<MATRIX_ROWS] buf1)"

section \<open>The animation engine\<close>

text \<open>
  The fields of the global \<open>msg_context\<close>, followed by the two other globals the
  animation code reads and writes: the frame buffer and the completion flag.
  \<open>routine\<close> and \<open>msg_length\<close> are \<open>unsigned int\<close>; \<open>state\<close>, \<open>tmp_1\<close> and \<open>tmp_2\<close>
  are \<open>int\<close>; the speed, the interval and the two timestamps are \<open>unsigned long\<close>.
\<close>

record engine =
  routine :: int16
  animation_speed :: ulong
  anim_prev_millis :: ulong
  state :: int16
  tmp_1 :: int16
  tmp_2 :: int16
  msg_ptr :: "byte list"
  msg_length :: int16
  interval :: ulong
  delay_prev_millis :: ulong
  display_buffer :: buffer
  fetch_next_msg :: bool

subsection \<open>start_animation\<close>

text \<open>
  \<open>now\<close> is the value \<open>millis()\<close> returns. \<open>strlen\<close> is the length of the list, stored
  in an \<open>unsigned int\<close>; \<open>1000 * pause_interval\<close> is an \<open>unsigned int\<close> product,
  widened on assignment. The serial prints are not modelled.
\<close>

definition start_animation ::
  "int16 \<Rightarrow> int16 \<Rightarrow> int16 \<Rightarrow> byte list \<Rightarrow> ulong \<Rightarrow> engine \<Rightarrow> engine" where
  "start_animation rtn speed pause_interval msg_start_ptr now s =
     (let s1 = s\<lparr>routine := rtn,
                 animation_speed := ucast speed,
                 interval := ucast (1000 * pause_interval),
                 msg_ptr := msg_start_ptr,
                 msg_length := of_nat (length msg_start_ptr)\<rparr>
      in if msg_length s1 = 0 then s1
         else s1\<lparr>state := 0,
                 anim_prev_millis := 0,
                 delay_prev_millis := now,
                 fetch_next_msg := False\<rparr>)"

subsection \<open>do_animation\<close>

text \<open>
  What one call reads from outside: \<open>millis()\<close> at entry, \<open>millis()\<close> again in the
  pause check after the \<open>switch\<close>, and the values of the \<open>random\<close> calls of routines 15
  and 20, as received by the \<open>int\<close> and \<open>unsigned int\<close> they are passed or assigned to.
\<close>

record tick =
  l_millis :: ulong
  tail_millis :: ulong
  random_column :: int16
  random_row :: int16
  random_routine :: int16

definition pacman :: "byte list list" where
  "pacman = [[0x00, 0x3C, 0x7E, 0xFF, 0xFF, 0xFF, 0x7E, 0x3C],
             [0x00, 0x42, 0xE7, 0xFF, 0xFF, 0xFF, 0x7E, 0x3C]]"

text \<open>C's \<open>!\<close> on an \<open>int\<close>.\<close>

definition c_not :: "int16 \<Rightarrow> int16" where
  "c_not x = (if x = 0 then 1 else 0)"

definition draw_msg :: "font \<Rightarrow> int16 \<Rightarrow> int16 \<Rightarrow> engine \<Rightarrow> engine" where
  "draw_msg fnt format style s =
     s\<lparr>display_buffer :=
         matrix_draw_text fnt (msg_ptr s) (msg_length s) format style (display_buffer s)\<rparr>"

definition fill :: "byte \<Rightarrow> engine \<Rightarrow> engine" where
  "fill v s = s\<lparr>display_buffer := matrix_fill_buffer v (display_buffer s)\<rparr>"

text \<open>
  Each \<open>case\<close> of the \<open>switch\<close> is a function to the new state and a flag: \<open>True\<close> when
  the case leaves by \<open>break\<close> and goes on to the pause check, \<open>False\<close> when it leaves by
  \<open>return\<close>.
\<close>

text \<open>case 1 (and case 0, which falls into it): smooth scrolling.\<close>

definition anim_smooth_scroll :: "font \<Rightarrow> ulong \<Rightarrow> engine \<Rightarrow> engine \<times> bool" where
  "anim_smooth_scroll fnt l s =
     (if anim_prev_millis s = 0 then
        (s\<lparr>tmp_1 := 0, anim_prev_millis := l\<rparr>, False)
      else if animation_speed s * 10 + 15 < l - anim_prev_millis s then
        (if state s \<le> msg_length s - 1 then
           let s1 = s\<lparr>display_buffer :=
                        matrix_shiftin_chr fnt (text_at (msg_ptr s) (state s)) (tmp_1 s)
                          DIRECTION_LEFT (display_buffer s),
                      tmp_1 := tmp_1 s + 1\<rparr>;
               s2 = (if tmp_1 s1 = of_nat FONT_PITCH
                     then s1\<lparr>state := state s1 + 1, tmp_1 := 0\<rparr> else s1)
           in (s2\<lparr>anim_prev_millis := l\<rparr>, False)
         else
           let s1 = s\<lparr>display_buffer := matrix_shift_buffer DIRECTION_LEFT (display_buffer s),
                      state := state s + 1\<rparr>;
               s2 = (if msg_length s + of_nat MATRIX_COLUMNS \<le> state s
                     then s1\<lparr>fetch_next_msg := True\<rparr> else s1)
           in (s2\<lparr>anim_prev_millis := l\<rparr>, False))
      else (s, False))"

text \<open>cases 2, 3, 4: static text.\<close>

definition anim_static :: "font \<Rightarrow> ulong \<Rightarrow> engine \<Rightarrow> engine \<times> bool" where
  "anim_static fnt l s =
     (if anim_prev_millis s = 0 then
        let s1 = (if msg_length s < of_nat MATRIX_MAX_CHRS then fill 0 s else s);
            s2 = draw_msg fnt (routine s1 - 2) DT_STYLE_NORMAL s1
        in (s2\<lparr>anim_prev_millis := anim_prev_millis s2 + 1\<rparr>, True)
      else (s, True))"

text \<open>cases 5, 6, 7: blinking text.\<close>

definition anim_blink :: "font \<Rightarrow> ulong \<Rightarrow> engine \<Rightarrow> engine \<times> bool" where
  "anim_blink fnt l s =
     (if anim_prev_millis s = 0 then
        let s1 = (if state s = 0 then fill 0 s
                  else draw_msg fnt (routine s - 5) DT_STYLE_NORMAL s)
        in (s1\<lparr>anim_prev_millis := l\<rparr>, True)
      else if 200 + animation_speed s * 100 < l - anim_prev_millis s then
        (s\<lparr>anim_prev_millis := 0, state := c_not (state s)\<rparr>, True)
      else (s, True))"

text \<open>cases 8, 9, 10: inverting text.\<close>

definition anim_invert :: "font \<Rightarrow> ulong \<Rightarrow> engine \<Rightarrow> engine \<times> bool" where
  "anim_invert fnt l s =
     (if anim_prev_millis s = 0 then
        let s1 = (if msg_length s < of_nat MATRIX_MAX_CHRS
                  then fill (if state s = 0 then 0x00 else 0xFF) s else s);
            s2 = draw_msg fnt (routine s1 - 8)
                   (if state s1 = 0 then DT_STYLE_NORMAL else DT_STYLE_INVERSE) s1
        in (s2\<lparr>anim_prev_millis := l\<rparr>, True)
      else if 400 + animation_speed s * 100 < l - anim_prev_millis s then
        (s\<lparr>anim_prev_millis := 0, state := c_not (state s)\<rparr>, True)
      else (s, True))"

text \<open>cases 11, 12: scroll the message up or down.\<close>

definition anim_scroll_vertical :: "font \<Rightarrow> ulong \<Rightarrow> engine \<Rightarrow> engine \<times> bool" where
  "anim_scroll_vertical fnt l s =
     (if anim_prev_millis s = 0 then
        (s\<lparr>tmp_1 := 0, anim_prev_millis := l\<rparr>, True)
      else if state s = 0 \<and> 400 + animation_speed s * 100 < l - anim_prev_millis s then
        let s1 = (if tmp_1 s <s 8
                  then s\<lparr>display_buffer :=
                           matrix_shift_buffer
                             (if routine s = 11 then DIRECTION_UP else DIRECTION_DOWN)
                             (display_buffer s),
                         tmp_1 := tmp_1 s + 1\<rparr>
                  else (draw_msg fnt DT_ALIGN_CENTER DT_STYLE_NORMAL s)
                         \<lparr>state := state s + 1\<rparr>)
        in (s1\<lparr>anim_prev_millis := l\<rparr>, False)
      else (s, True))"

text \<open>case 13: coarse (block) scrolling.\<close>

definition anim_block_scroll :: "font \<Rightarrow> ulong \<Rightarrow> engine \<Rightarrow> engine \<times> bool" where
  "anim_block_scroll fnt l s =
     (if anim_prev_millis s = 0 then
        ((fill 0 s)\<lparr>anim_prev_millis := l\<rparr>, True)
      else if 90 + animation_speed s * 100 < l - anim_prev_millis s then
        let s1 = (if state s \<le> msg_length s - 1 \<and> state s <s of_nat MATRIX_MAX_CHRS
                  then s\<lparr>display_buffer :=
                           fold (\<lambda>i b. matrix_shiftin_chr fnt (text_at (msg_ptr s) (state s))
                                          (of_nat i) DIRECTION_LEFT b)
                                [0..<FONT_PITCH] (display_buffer s),
                         state := state s + 1\<rparr>
                  else s)
        in (s1\<lparr>anim_prev_millis := l\<rparr>, True)
      else (s, True))"

text \<open>case 14: fast zap.\<close>

definition anim_zap :: "font \<Rightarrow> ulong \<Rightarrow> engine \<Rightarrow> engine \<times> bool" where
  "anim_zap fnt l s =
     (if anim_prev_millis s = 0 then
        ((fill 0 s)\<lparr>tmp_1 := 0, tmp_2 := 0, anim_prev_millis := l\<rparr>, False)
      else if state s = 0 \<and> 1 < l - anim_prev_millis s then
        let s1 =
          (if tmp_1 s \<le> msg_length s - 1 \<and> tmp_1 s \<le>s of_nat (MATRIX_MAX_CHRS - 1) then
             let a = s\<lparr>display_buffer :=
                         matrix_shiftin_chr fnt (text_at (msg_ptr s) (tmp_1 s)) (tmp_2 s)
                           DIRECTION_LEFT (display_buffer s),
                       tmp_2 := tmp_2 s + 1\<rparr>
             in if tmp_2 a = of_nat FONT_PITCH
                then a\<lparr>tmp_1 := tmp_1 a + 1, tmp_2 := 0\<rparr> else a
           else if tmp_1 s <s of_nat MATRIX_MAX_CHRS then
             let a = s\<lparr>display_buffer := matrix_shift_buffer DIRECTION_LEFT (display_buffer s),
                       tmp_2 := tmp_2 s + 1\<rparr>
             in if tmp_2 a = of_nat FONT_PITCH
                then a\<lparr>tmp_1 := tmp_1 a + 1, tmp_2 := 0\<rparr> else a
           else s\<lparr>state := state s + 1\<rparr>)
        in (s1\<lparr>anim_prev_millis := l\<rparr>, False)
      else if state s = 1 \<and> interval s < l - delay_prev_millis s then
        (s\<lparr>state := state s + 1, tmp_1 := 0, anim_prev_millis := l\<rparr>, False)
      else if state s = 2 \<and> 1 < l - anim_prev_millis s then
        let a = s\<lparr>display_buffer := matrix_shift_buffer DIRECTION_LEFT (display_buffer s),
                  tmp_1 := tmp_1 s + 1\<rparr>;
            b = (if of_nat MATRIX_COLUMNS <s tmp_1 a then a\<lparr>state := state a + 1\<rparr> else a)
        in (b\<lparr>anim_prev_millis := l\<rparr>, False)
      else if state s = 3 then
        (s\<lparr>fetch_next_msg := True\<rparr>, False)
      else (s, False))"

text \<open>case 15: dissolve screen.\<close>

definition anim_dissolve :: "font \<Rightarrow> tick \<Rightarrow> engine \<Rightarrow> engine \<times> bool" where
  "anim_dissolve fnt tk s =
     (if state s <s 6000 then
        (s\<lparr>display_buffer :=
             matrix_draw_pixel (random_column tk) (random_row tk) 0 (display_buffer s),
           state := state s + 1\<rparr>, False)
      else if state s = 6000 then
        ((draw_msg fnt DT_ALIGN_LEFT DT_STYLE_NORMAL (fill 0 s))\<lparr>state := state s + 1\<rparr>, True)
      else (s, True))"

text \<open>case 16: sliding characters.\<close>

definition erase_columns :: "int16 \<Rightarrow> nat \<Rightarrow> buffer \<Rightarrow> buffer" where
  "erase_columns first n buf =
     fold (\<lambda>col b. fold (\<lambda>row b'. matrix_draw_pixel (of_nat col + first) (of_nat row) 0 b')
                         [0..<MATRIX_ROWS] b)
          [0..<n] buf"

definition anim_slide :: "font \<Rightarrow> ulong \<Rightarrow> engine \<Rightarrow> engine \<times> bool" where
  "anim_slide fnt l s =
     (if anim_prev_millis s = 0 then
        ((fill 0 s)\<lparr>tmp_1 := (if of_nat MATRIX_MAX_CHRS \<le> msg_length s
                                then of_nat MATRIX_MAX_CHRS else msg_length s) - 1,
                     tmp_2 := of_nat (MATRIX_COLUMNS - FONT_PITCH),
                     anim_prev_millis := l\<rparr>, False)
      else if state s \<le>s tmp_1 s \<and> 20 + animation_speed s * 10 < l - anim_prev_millis s then
        let b1 = matrix_draw_chr fnt (tmp_2 s) (text_at (msg_ptr s) (state s)) False
                   (display_buffer s);
            b2 = erase_columns (tmp_2 s + of_nat FONT_PITCH) FONT_PITCH b1;
            s1 = s\<lparr>display_buffer := b2\<rparr>;
            s2 = (if state s1 * of_nat FONT_PITCH <s tmp_2 s1
                  then s1\<lparr>tmp_2 := tmp_2 s1 - of_nat FONT_PITCH\<rparr>
                  else s1\<lparr>tmp_2 := of_nat (MATRIX_COLUMNS - FONT_PITCH),
                          state := state s1 + 1\<rparr>)
        in (s2\<lparr>anim_prev_millis := l\<rparr>, False)
      else (s, True))"

text \<open>cases 17, 18: rolling text.\<close>

definition anim_roll :: "font \<Rightarrow> ulong \<Rightarrow> engine \<Rightarrow> engine \<times> bool" where
  "anim_roll fnt l s =
     (let s1 =
        (if anim_prev_millis s = 0 then
           let a = (if msg_length s < of_nat MATRIX_MAX_CHRS then fill 0 s else s)
           in (draw_msg fnt DT_ALIGN_CENTER DT_STYLE_NORMAL a)
                \<lparr>tmp_1 := 0, anim_prev_millis := l\<rparr>
         else if state s = 0 \<and> 2000 < l - anim_prev_millis s then
           s\<lparr>state := state s + 1, anim_prev_millis := l\<rparr>
         else if state s = 1 \<and> 90 < l - anim_prev_millis s then
           let a = s\<lparr>display_buffer :=
                       matrix_rotate_buffer
                         (if routine s = 17 then DIRECTION_LEFT else DIRECTION_RIGHT)
                         (display_buffer s),
                     tmp_1 := tmp_1 s + 1\<rparr>;
               b = (if tmp_1 a = of_nat MATRIX_COLUMNS then a\<lparr>state := state a + 1\<rparr> else a)
           in b\<lparr>anim_prev_millis := l\<rparr>
         else s)
      in (s1, \<not> state s1 <s 2))"

text \<open>case 19: pac-man.\<close>

definition draw_pacman :: "int16 \<Rightarrow> int16 \<Rightarrow> buffer \<Rightarrow> buffer" where
  "draw_pacman frame first buf =
     fold (\<lambda>col b.
             fold (\<lambda>row b'.
                     matrix_draw_pixel (of_nat col + first) (of_nat row)
                       (ucast (bitRead (pacman ! unat frame ! col) row)) b')
                  [0..<MATRIX_ROWS] b)
          [0..<8] buf"

definition anim_pacman :: "ulong \<Rightarrow> engine \<Rightarrow> engine \<times> bool" where
  "anim_pacman l s =
     (if anim_prev_millis s = 0 then
        (s\<lparr>tmp_1 := of_nat (MATRIX_COLUMNS - 8), tmp_2 := 1, anim_prev_millis := l\<rparr>, False)
      else if state s <s 2 \<and> 100 < l - anim_prev_millis s then
        let b1 = draw_pacman (tmp_2 s) (tmp_1 s) (display_buffer s);
            b2 = erase_columns (tmp_1 s + 8) 8 b1;
            s1 = s\<lparr>display_buffer := b2\<rparr>;
            s2 = (if tmp_2 s1 = 0 then s1\<lparr>tmp_2 := 1\<rparr>
                  else s1\<lparr>tmp_2 := 0, state := state s1 + 1\<rparr>)
        in (s2\<lparr>anim_prev_millis := l\<rparr>, False)
      else if state s = 2 \<and> - 8 <s tmp_1 s then
        (s\<lparr>tmp_1 := tmp_1 s - 8, state := 0, anim_prev_millis := l\<rparr>, False)
      else if tmp_1 s \<le>s - 8 then
        ((fill 0 s)\<lparr>routine := 0\<rparr>, False)
      else (s, False))"

text \<open>case 20: random.\<close>

definition anim_random :: "tick \<Rightarrow> engine \<Rightarrow> engine \<times> bool" where
  "anim_random tk s =
     (if msg_length s \<le> of_nat MATRIX_MAX_CHRS
      then (s\<lparr>routine := random_routine tk\<rparr>, True)
      else (s\<lparr>routine := 0\<rparr>, True))"

text \<open>The pause check after the \<open>switch\<close>, reached by the cases that \<open>break\<close>.\<close>

definition pause_check :: "tick \<Rightarrow> engine \<times> bool \<Rightarrow> engine" where
  "pause_check tk r =
     (case r of (s, brk) \<Rightarrow>
        if brk \<and> interval s < tail_millis tk - delay_prev_millis s
        then s\<lparr>fetch_next_msg := True\<rparr> else s)"

definition do_animation :: "font \<Rightarrow> tick \<Rightarrow> engine \<Rightarrow> engine" where
  "do_animation fnt tk s =
     (let l = l_millis tk; r = routine s in
      pause_check tk
        (if r = 0 then
           anim_smooth_scroll fnt l (if anim_prev_millis s = 0 then fill 0x00 s else s)
         else if r = 1 then anim_smooth_scroll fnt l s
         else if r = 2 \<or> r = 3 \<or> r = 4 then anim_static fnt l s
         else if r = 5 \<or> r = 6 \<or> r = 7 then anim_blink fnt l s
         else if r = 8 \<or> r = 9 \<or> r = 10 then anim_invert fnt l s
         else if r = 11 \<or> r = 12 then anim_scroll_vertical fnt l s
         else if r = 13 then anim_block_scroll fnt l s
         else if r = 14 then anim_zap fnt l s
         else if r = 15 then anim_dissolve fnt tk s
         else if r = 16 then anim_slide fnt l s
         else if r = 17 \<or> r = 18 then anim_roll fnt l s
         else if r = 19 then anim_pacman l s
         else if r = 20 then anim_random tk s
         else (s\<lparr>fetch_next_msg := True\<rparr>, False)))"

section \<open>Notions used in the statements and proofs\<close>

text \<open>The LED of column \<open>c\<close> in a row: bit \<open>c mod 8\<close> of zone \<open>c div 8\<close>.\<close>

definition column_bit :: "row \<Rightarrow> nat \<Rightarrow> bool" where
  "column_bit r c = bit (r ! (c div 8)) (c mod 8)"

text \<open>
  The byte a left rotation leaves in zone \<open>z\<close>, in terms of the row before the loop;
  \<open>right_byte\<close> is its mirror image for a right rotation.
\<close>

definition left_byte :: "byte \<Rightarrow> row \<Rightarrow> nat \<Rightarrow> byte" where
  "left_byte t r z =
     bitWrite (drop_bit 1 (r ! z)) 7 (bitRead (if z < MATRIX_MAX_ZONE_INDEX then r ! (z + 1) else t) 0)"

definition right_byte :: "byte \<Rightarrow> row \<Rightarrow> nat \<Rightarrow> byte" where
  "right_byte t r z =
     bitWrite (push_bit 1 (r ! z)) 0 (bitRead (if 0 < z then r ! (z - 1) else t) 7)"





subsection \<open>Concrete inputs\<close>

text \<open>
  The globals as their initialisers leave them at power-on, a clock that is read at regular
  intervals, a font, a buffer pattern and the message \<open>"HI"\<close>; the engine after routine 16
  has been armed for that message.
\<close>

definition initial_engine :: engine where
  "initial_engine =
     \<lparr>routine = 0, animation_speed = 5, anim_prev_millis = 0, state = 0,
      tmp_1 = 0, tmp_2 = 0, msg_ptr = [], msg_length = 0, interval = 0,
      delay_prev_millis = 0,
      display_buffer = replicate MATRIX_ROWS (replicate MATRIX_NUM_ZONES 0),
      fetch_next_msg = True\<rparr>"

definition clock_tick :: "ulong \<Rightarrow> tick" where
  "clock_tick t = \<lparr>l_millis = t, tail_millis = t, random_column = 0, random_row = 0,
                    random_routine = 0\<rparr>"

definition clock_ticks :: "ulong \<Rightarrow> ulong \<Rightarrow> nat \<Rightarrow> tick list" where
  "clock_ticks start period n = map (\<lambda>i. clock_tick (start + period * of_nat i)) [0..<n]"

definition test_font :: font where
  "test_font = \<lparr>FONT_FIRST_CHR = 0x1D, FONT_LAST_CHR = 0x7F,
                 Font8x5 = (\<lambda>g col. of_nat (g + col))\<rparr>"

definition test_pattern :: buffer where
  "test_pattern =
     replicate 8 [0x01, 0x02, 0x03, 0x04, 0x05, 0x06, 0x07, 0x08,
                  0x09, 0x0A, 0x0B, 0x0C, 0x0D, 0x0E, 0x8F]"

definition msg_HI :: "byte list" where
  "msg_HI = [0x48, 0x49]"

definition after_slide :: engine where
  "after_slide =
     do_animation test_font (clock_tick 1000) (start_animation 16 5 20 msg_HI 900 initial_engine)"

text \<open>
  A run of routine 19 on a buffer that is not blank: the animation is started while the
  buffer holds \<open>test_pattern\<close> and \<open>do_animation\<close> is called every 150 ms. After 73 calls
  the sprite is at column 0; the 75th call moves it to column \<open>-8\<close>.
\<close>

definition pacman_start :: engine where
  "pacman_start =
     start_animation 19 5 20 msg_HI 900 (initial_engine\<lparr>display_buffer := test_pattern\<rparr>)"

definition pacman_before_edge :: engine where
  "pacman_before_edge = fold (do_animation test_font) (clock_ticks 1000 150 73) pacman_start"

definition pacman_at_edge :: engine where
  "pacman_at_edge = fold (do_animation test_font) (clock_ticks 1000 150 75) pacman_start"

text \<open>
  The fields that decide the branch routine 19 takes (routine, \<open>anim_prev_millis\<close>, state,
  \<open>tmp_1\<close>, \<open>tmp_2\<close>), and what one call of case 19 does to them. The frame buffer plays no
  part in it, so the control fields of a run can be computed without the frames.
\<close>

type_synonym pacman_control = "int16 \<times> ulong \<times> int16 \<times> int16 \<times> int16"

definition pacman_ctl :: "engine \<Rightarrow> pacman_control" where
  "pacman_ctl s = (routine s, anim_prev_millis s, state s, tmp_1 s, tmp_2 s)"

fun pacman_next :: "ulong \<Rightarrow> pacman_control \<Rightarrow> pacman_control" where
  "pacman_next l (r, prev, st, t1, t2) =
     (if r \<noteq> 19 then (r, prev, st, t1, t2)
      else if prev = 0 then (19, l, st, of_nat (MATRIX_COLUMNS - 8), 1)
      else if st <s 2 \<and> 100 < l - prev then
        (if t2 = 0 then (19, l, st, t1, 1) else (19, l, st + 1, t1, 0))
      else if st = 2 \<and> - 8 <s t1 then (19, l, 0, t1 - 8, t2)
      else if t1 \<le>s - 8 then (0, prev, st, t1, t2)
      else (19, prev, st, t1, t2))"

text \<open>The LED of column 1 in row 1, which frame 1 of the sprite lights at column 0.\<close>

definition sprite_lit :: "buffer \<Rightarrow> bool" where
  "sprite_lit buf \<longleftrightarrow> buffer_ok buf \<and> bit (buf ! 1 ! 0) 1"

section \<open>Bits and rows under rotation\<close>

lemma bitRead_nonzero: "bitRead v b \<noteq> 0 \<longleftrightarrow> bit v b"
  by (simp add: bitRead_def and_one_eq mod_2_eq_odd bit_iff_odd_drop_bit)

lemma bit_bitWrite:
  "b < 8 \<Longrightarrow> bit (bitWrite v b x) n \<longleftrightarrow> (if n = b then x \<noteq> 0 else bit v n)"
  by (auto simp: bitWrite_def bit_simps dest: bit_imp_le_length)

lemma length_rotate_left_zone [simp]: "length (rotate_left_zone t z r) = length r"
  by (simp add: rotate_left_zone_def Let_def)

lemma length_fold_rotate_left_zone [simp]:
  "length (fold (rotate_left_zone t) zs r) = length r"
  by (induction zs arbitrary: r) simp_all

lemma fold_rotate_left_zone_nth:
  "length r = MATRIX_NUM_ZONES \<Longrightarrow> n \<le> MATRIX_NUM_ZONES \<Longrightarrow> z < MATRIX_NUM_ZONES \<Longrightarrow>
   fold (rotate_left_zone t) [0..<n] r ! z = (if z < n then left_byte t r z else r ! z)"
proof (induction n arbitrary: z)
  case 0
  then show ?case by simp
next
  case (Suc n)
  let ?r = "fold (rotate_left_zone t) [0..<n] r"
  have len: "length ?r = MATRIX_NUM_ZONES" using Suc.prems by simp
  have n: "n < MATRIX_NUM_ZONES" using Suc.prems by simp
  have ih: "\<And>y. y < MATRIX_NUM_ZONES \<Longrightarrow> ?r ! y = (if y < n then left_byte t r y else r ! y)"
    using Suc by simp
  have "rotate_left_zone t n ?r ! z = (if z < Suc n then left_byte t r z else r ! z)"
  proof (cases "z = n")
    case True
    show ?thesis
    proof (cases "n < MATRIX_MAX_ZONE_INDEX")
      case a: True
      then have "Suc n < MATRIX_NUM_ZONES" by (simp add: MATRIX_MAX_ZONE_INDEX_def)
      then show ?thesis using True a n len ih [of n] ih [of "Suc n"]
        by (simp add: rotate_left_zone_def Let_def left_byte_def)
    next
      case False
      then show ?thesis using True n len ih [of n]
        by (simp add: rotate_left_zone_def Let_def left_byte_def)
    qed
  next
    case False
    then show ?thesis using Suc.prems len ih [of z]
      by (simp add: rotate_left_zone_def Let_def)
  qed
  then show ?case by simp
qed

lemma rotate_left_row_nth:
  "length r = MATRIX_NUM_ZONES \<Longrightarrow> z < MATRIX_NUM_ZONES \<Longrightarrow>
   rotate_left_row r ! z = left_byte (r ! 0) r z"
  by (simp add: rotate_left_row_def Let_def fold_rotate_left_zone_nth)

lemma length_rotate_left_row [simp]: "length (rotate_left_row r) = length r"
  by (simp add: rotate_left_row_def Let_def)

lemma zone_of_column: "c < MATRIX_COLUMNS \<Longrightarrow> c div 8 < MATRIX_NUM_ZONES"
  by (simp add: MATRIX_NUM_ZONES_def MATRIX_COLUMNS_def)

lemma column_bit_rotate_left:
  assumes "length r = MATRIX_NUM_ZONES" "c < MATRIX_COLUMNS"
  shows "column_bit (rotate_left_row r) c = column_bit r (Suc c mod MATRIX_COLUMNS)"
proof -
  have z: "c div 8 < MATRIX_NUM_ZONES" using assms(2) by (rule zone_of_column)
  have c: "c < 120" using assms(2) by (simp add: MATRIX_COLUMNS_def)
  have dm: "c = 8 * (c div 8) + c mod 8" by simp
  have b: "c mod 8 < 8" by simp
  show ?thesis
  proof (cases "c mod 8 = 7")
    case True
    then have s: "Suc c div 8 = Suc (c div 8)" "Suc c mod 8 = 0"
      by (simp_all add: div_Suc mod_Suc)
    show ?thesis
    proof (cases "c div 8 < MATRIX_MAX_ZONE_INDEX")
      case a: True
      then have "c div 8 < 14"
        by (simp add: MATRIX_MAX_ZONE_INDEX_def MATRIX_NUM_ZONES_def MATRIX_COLUMNS_def)
      then have "Suc c < 120" using dm True by linarith
      then have "Suc c mod MATRIX_COLUMNS = Suc c" by (simp add: MATRIX_COLUMNS_def)
      then show ?thesis using assms(1) z True a s
        by (simp add: column_bit_def rotate_left_row_nth left_byte_def bit_bitWrite bitRead_nonzero)
    next
      case False
      then have "14 \<le> c div 8"
        by (simp add: MATRIX_MAX_ZONE_INDEX_def MATRIX_NUM_ZONES_def MATRIX_COLUMNS_def)
      then have "c = 119" using dm True c by linarith
      then show ?thesis using assms(1) z False
        by (simp add: column_bit_def rotate_left_row_nth left_byte_def bit_bitWrite
            bitRead_nonzero MATRIX_COLUMNS_def)
    qed
  next
    case False
    then have lt: "c mod 8 < 7" using b by linarith
    then have s: "Suc c div 8 = c div 8" "Suc c mod 8 = Suc (c mod 8)"
      by (simp_all add: div_Suc mod_Suc)
    have "Suc c \<noteq> 120" using s(2) by auto
    then have "Suc c mod MATRIX_COLUMNS = Suc c" using c by (simp add: MATRIX_COLUMNS_def)
    then show ?thesis using assms(1) z False lt s
      by (simp add: column_bit_def rotate_left_row_nth left_byte_def bit_bitWrite bit_simps)
  qed
qed

lemma length_rotate_right_zone [simp]: "length (rotate_right_zone t z r) = length r"
  by (simp add: rotate_right_zone_def Let_def)

lemma length_foldr_rotate_right_zone [simp]:
  "length (foldr (rotate_right_zone t) zs r) = length r"
  by (induction zs) simp_all

lemma foldr_rotate_right_zone_nth:
  "length r = MATRIX_NUM_ZONES \<Longrightarrow> k \<le> MATRIX_NUM_ZONES \<Longrightarrow> z < MATRIX_NUM_ZONES \<Longrightarrow>
   foldr (rotate_right_zone t) [k..<MATRIX_NUM_ZONES] r ! z
     = (if k \<le> z then right_byte t r z else r ! z)"
proof (induction "MATRIX_NUM_ZONES - k" arbitrary: k z)
  case 0
  then show ?case by simp
next
  case (Suc m)
  let ?r = "foldr (rotate_right_zone t) [Suc k..<MATRIX_NUM_ZONES] r"
  have k: "k < MATRIX_NUM_ZONES" using Suc.hyps(2) by simp
  have len: "length ?r = MATRIX_NUM_ZONES" using Suc.prems by simp
  have ih: "\<And>y. y < MATRIX_NUM_ZONES \<Longrightarrow> ?r ! y = (if Suc k \<le> y then right_byte t r y else r ! y)"
    using Suc.hyps(1) [of "Suc k"] Suc.hyps(2) Suc.prems k by simp
  have unf: "foldr (rotate_right_zone t) [k..<MATRIX_NUM_ZONES] r = rotate_right_zone t k ?r"
    using k by (simp add: upt_conv_Cons)
  have "rotate_right_zone t k ?r ! z = (if k \<le> z then right_byte t r z else r ! z)"
  proof (cases "z = k")
    case True
    show ?thesis
    proof (cases "0 < k")
      case a: True
      then have "k - 1 < MATRIX_NUM_ZONES" "\<not> Suc k \<le> k - 1" using k by simp_all
      then have "?r ! (k - 1) = r ! (k - 1)" using ih [of "k - 1"] by auto
      then show ?thesis using True a k len ih [of k]
        by (simp add: rotate_right_zone_def Let_def right_byte_def)
    next
      case False
      then show ?thesis using True k len ih [of k]
        by (simp add: rotate_right_zone_def Let_def right_byte_def)
    qed
  next
    case False
    then have "rotate_right_zone t k ?r ! z = ?r ! z"
      by (simp add: rotate_right_zone_def Let_def)
    moreover have "(Suc k \<le> z) = (k \<le> z)" using False by auto
    ultimately show ?thesis using Suc.prems ih [of z] by simp
  qed
  then show ?case using unf by simp
qed

lemma rotate_right_row_nth:
  "length r = MATRIX_NUM_ZONES \<Longrightarrow> z < MATRIX_NUM_ZONES \<Longrightarrow>
   rotate_right_row r ! z = right_byte (r ! MATRIX_MAX_ZONE_INDEX) r z"
  using foldr_rotate_right_zone_nth [of r 0 z]
  by (simp add: rotate_right_row_def Let_def fold_rev foldr_conv_fold)

lemma length_rotate_right_row [simp]: "length (rotate_right_row r) = length r"
  by (simp add: rotate_right_row_def Let_def foldr_conv_fold [symmetric])

lemma bit_push_bit_1:
  "bit (push_bit 1 (x :: byte)) n \<longleftrightarrow> 0 < n \<and> n < 8 \<and> bit x (n - 1)"
  unfolding bit_push_bit_iff by (auto simp: Suc_le_eq dest: bit_imp_le_length)

lemma bit_right_byte:
  "n < 8 \<Longrightarrow>
   bit (right_byte t r z) n
     = (if n = 0 then bit (if 0 < z then r ! (z - 1) else t) 7 else bit (r ! z) (n - 1))"
  unfolding right_byte_def by (simp only: bit_bitWrite bitRead_nonzero bit_push_bit_1) simp

lemma column_bit_rotate_right:
  assumes "length r = MATRIX_NUM_ZONES" "c < MATRIX_COLUMNS"
  shows "column_bit (rotate_right_row r) (Suc c mod MATRIX_COLUMNS) = column_bit r c"
proof -
  have z: "c div 8 < MATRIX_NUM_ZONES" using assms(2) by (rule zone_of_column)
  have c: "c < 120" using assms(2) by (simp add: MATRIX_COLUMNS_def)
  have dm: "c = 8 * (c div 8) + c mod 8" by simp
  have b: "c mod 8 < 8" by simp
  show ?thesis
  proof (cases "c mod 8 = 7")
    case True
    then have s: "Suc c div 8 = Suc (c div 8)" "Suc c mod 8 = 0"
      by (simp_all add: div_Suc mod_Suc)
    show ?thesis
    proof (cases "c div 8 < MATRIX_MAX_ZONE_INDEX")
      case a: True
      then have a': "c div 8 < 14"
        by (simp add: MATRIX_MAX_ZONE_INDEX_def MATRIX_NUM_ZONES_def MATRIX_COLUMNS_def)
      then have "Suc c < 120" using dm True by linarith
      then have m: "Suc c mod MATRIX_COLUMNS = Suc c" by (simp add: MATRIX_COLUMNS_def)
      have "Suc (c div 8) < MATRIX_NUM_ZONES"
        using a' by (simp add: MATRIX_NUM_ZONES_def MATRIX_COLUMNS_def)
      then show ?thesis using assms(1) True s m
        by (simp add: column_bit_def rotate_right_row_nth bit_right_byte)
    next
      case False
      then have "14 \<le> c div 8"
        by (simp add: MATRIX_MAX_ZONE_INDEX_def MATRIX_NUM_ZONES_def MATRIX_COLUMNS_def)
      then have "c = 119" using dm True c by linarith
      then show ?thesis using assms(1)
        by (simp add: column_bit_def rotate_right_row_nth bit_right_byte
            MATRIX_COLUMNS_def MATRIX_MAX_ZONE_INDEX_def MATRIX_NUM_ZONES_def)
    qed
  next
    case False
    then have lt: "c mod 8 < 7" using b by linarith
    then have s: "Suc c div 8 = c div 8" "Suc c mod 8 = Suc (c mod 8)"
      by (simp_all add: div_Suc mod_Suc)
    have "Suc c \<noteq> 120" using s(2) by auto
    then have "Suc c mod MATRIX_COLUMNS = Suc c" using c by (simp add: MATRIX_COLUMNS_def)
    then show ?thesis using assms(1) z lt s
      by (simp add: column_bit_def rotate_right_row_nth bit_right_byte)
  qed
qed

lemma row_eqI:
  assumes "length r1 = MATRIX_NUM_ZONES" "length r2 = MATRIX_NUM_ZONES"
    and "\<And>c. c < MATRIX_COLUMNS \<Longrightarrow> column_bit r1 c = column_bit r2 c"
  shows "r1 = r2"
proof (rule nth_equalityI)
  show "length r1 = length r2" using assms by simp
next
  fix z assume "z < length r1"
  then have z: "z < 15" using assms(1) by (simp add: MATRIX_NUM_ZONES_def MATRIX_COLUMNS_def)
  show "r1 ! z = r2 ! z"
  proof (rule bit_word_eqI)
    fix n assume "n < LENGTH(8)"
    then have n: "n < 8" by simp
    then have "8 * z + n < MATRIX_COLUMNS" using z by (simp add: MATRIX_COLUMNS_def)
    then have "column_bit r1 (8 * z + n) = column_bit r2 (8 * z + n)" by (rule assms(3))
    then show "bit (r1 ! z) n = bit (r2 ! z) n" using n by (simp add: column_bit_def)
  qed
qed

lemma rotate_right_left_row:
  assumes "length r = MATRIX_NUM_ZONES"
  shows "rotate_right_row (rotate_left_row r) = r"
proof (rule row_eqI)
  fix c assume c: "c < MATRIX_COLUMNS"
  define c' where "c' = (if c = 0 then MATRIX_COLUMNS - 1 else c - 1)"
  have c': "c' < MATRIX_COLUMNS" "Suc c' mod MATRIX_COLUMNS = c"
    using c by (auto simp: c'_def MATRIX_COLUMNS_def)
  have "column_bit (rotate_right_row (rotate_left_row r)) (Suc c' mod MATRIX_COLUMNS)
        = column_bit (rotate_left_row r) c'"
    using assms c'(1) by (simp add: column_bit_rotate_right)
  also have "\<dots> = column_bit r (Suc c' mod MATRIX_COLUMNS)"
    using assms c'(1) by (rule column_bit_rotate_left)
  finally show "column_bit (rotate_right_row (rotate_left_row r)) c = column_bit r c"
    by (simp only: c'(2))
qed (use assms in simp_all)

lemma length_funpow_rotate_left_row [simp]:
  "length ((rotate_left_row ^^ n) r) = length r"
  by (induction n) simp_all

lemma column_bit_funpow_left:
  "length r = MATRIX_NUM_ZONES \<Longrightarrow> c < MATRIX_COLUMNS \<Longrightarrow>
   column_bit ((rotate_left_row ^^ n) r) c = column_bit r ((c + n) mod MATRIX_COLUMNS)"
proof (induction n arbitrary: c)
  case 0
  then show ?case by simp
next
  case (Suc n)
  have len: "length ((rotate_left_row ^^ n) r) = MATRIX_NUM_ZONES"
    using Suc.prems(1) by simp
  have "Suc c mod MATRIX_COLUMNS < MATRIX_COLUMNS" by (simp add: MATRIX_COLUMNS_def)
  moreover have "(Suc c mod MATRIX_COLUMNS + n) mod MATRIX_COLUMNS = (c + Suc n) mod MATRIX_COLUMNS"
    by (simp add: mod_add_left_eq)
  ultimately show ?case using Suc len
    by (simp add: column_bit_rotate_left)
qed

lemma funpow_rotate_left_row_period:
  assumes "length r = MATRIX_NUM_ZONES"
  shows "(rotate_left_row ^^ MATRIX_COLUMNS) r = r"
proof (rule row_eqI)
  show "length ((rotate_left_row ^^ MATRIX_COLUMNS) r) = MATRIX_NUM_ZONES"
    using assms by simp
next
  fix c assume "c < MATRIX_COLUMNS"
  then show "column_bit ((rotate_left_row ^^ MATRIX_COLUMNS) r) c = column_bit r c"
    using assms by (simp add: column_bit_funpow_left)
qed (use assms in simp)

lemma fold_rows_take:
  "n \<le> length buf \<Longrightarrow>
   fold (\<lambda>row b. b[row := f (b ! row)]) [0..<n] buf = map f (take n buf) @ drop n buf"
proof (induction n)
  case 0
  then show ?case by simp
next
  case (Suc n)
  then have n: "n < length buf" by simp
  have "(map f (take n buf) @ drop n buf)[n := f ((map f (take n buf) @ drop n buf) ! n)]
        = map f (take (Suc n) buf) @ drop (Suc n) buf"
    using n by (simp add: list_update_append nth_append take_Suc_conv_app_nth
        Cons_nth_drop_Suc [symmetric])
  then show ?case using Suc by simp
qed

lemma fold_rows_map:
  "length buf = n \<Longrightarrow> fold (\<lambda>row b. b[row := f (b ! row)]) [0..<n] buf = map f buf"
  by (simp add: fold_rows_take)

lemma rotate_buffer_left_map:
  "buffer_ok buf \<Longrightarrow> matrix_rotate_buffer DIRECTION_LEFT buf = map rotate_left_row buf"
  by (simp add: matrix_rotate_buffer_def buffer_ok_def fold_rows_map)

lemma rotate_buffer_right_map:
  "buffer_ok buf \<Longrightarrow> matrix_rotate_buffer DIRECTION_RIGHT buf = map rotate_right_row buf"
  by (simp add: matrix_rotate_buffer_def buffer_ok_def fold_rows_map
      DIRECTION_LEFT_def DIRECTION_RIGHT_def)

lemma buffer_ok_rotate_left:
  "buffer_ok buf \<Longrightarrow> buffer_ok (matrix_rotate_buffer DIRECTION_LEFT buf)"
  by (simp add: rotate_buffer_left_map) (simp add: buffer_ok_def list_all_iff)

lemma buffer_ok_funpow_left:
  "buffer_ok buf \<Longrightarrow> buffer_ok ((matrix_rotate_buffer DIRECTION_LEFT ^^ n) buf)"
  by (induction n) (simp_all add: buffer_ok_rotate_left)

lemma rotate_buffer_right_left:
  assumes "buffer_ok buf"
  shows "matrix_rotate_buffer DIRECTION_RIGHT (matrix_rotate_buffer DIRECTION_LEFT buf) = buf"
proof -
  have "map rotate_right_row (map rotate_left_row buf) = map (\<lambda>r. r) buf"
    unfolding map_map
    by (rule map_cong) (use assms in \<open>auto simp: buffer_ok_def list_all_iff rotate_right_left_row\<close>)
  then show ?thesis
    using assms buffer_ok_rotate_left [OF assms]
    by (simp add: rotate_buffer_right_map) (simp add: rotate_buffer_left_map)
qed

lemma funpow_rotate_buffer_left_map:
  "buffer_ok buf \<Longrightarrow>
   (matrix_rotate_buffer DIRECTION_LEFT ^^ n) buf = map (rotate_left_row ^^ n) buf"
proof (induction n)
  case 0
  then show ?case by simp 
next
  case (Suc n)
  then show ?case
    using buffer_ok_funpow_left [of buf n]
    by (simp add: rotate_buffer_left_map)
qed

section \<open>Conversions between counts and machine integers\<close>

lemma unat_of_nat16: "n < 65536 \<Longrightarrow> unat (of_nat n :: int16) = n"
  by (simp add: unat_of_nat)

lemma sint_of_nat16: "n < 32768 \<Longrightarrow> sint (of_nat n :: int16) = int n"
proof -
  assume n: "n < 32768"
  have "sint (of_nat n :: int16) = signed_take_bit 15 (int n)"
    using signed_of_nat [where ?'a = int and ?'b = 16, of n] by simp
  also have "\<dots> = int n" using n by (simp add: signed_take_bit_int_eq_self)
  finally show ?thesis .
qed

lemma sdiv_nat: "int a sdiv int b = int (a div b)"
  by (cases "a = 0"; cases "b = 0") (simp_all add: signed_divide_int_def zdiv_int)

lemma of_nat16_le: "a < 65536 \<Longrightarrow> b < 65536 \<Longrightarrow> (of_nat a :: int16) \<le> of_nat b \<longleftrightarrow> a \<le> b"
  by (simp add: word_le_nat_alt unat_of_nat)

lemma of_nat16_eq: "a < 65536 \<Longrightarrow> b < 65536 \<Longrightarrow> (of_nat a :: int16) = of_nat b \<longleftrightarrow> a = b"
  by (metis unat_of_nat16)

lemma of_nat16_sle: "a < 32768 \<Longrightarrow> b < 32768 \<Longrightarrow> (of_nat a :: int16) \<le>s of_nat b \<longleftrightarrow> a \<le> b"
  by (simp add: word_sle_eq sint_of_nat16)

section \<open>Smooth scrolling\<close>













lemma buffer_ok_test_pattern: "buffer_ok test_pattern"
  by (simp add: buffer_ok_def test_pattern_def MATRIX_ROWS_def MATRIX_NUM_ZONES_def
      MATRIX_COLUMNS_def list_all_iff)




section \<open>Buffer fill, start of an animation, pac-man\<close>

lemma fold_zone_update:
  "fold (\<lambda>zone b'. b'[row := (b' ! row)[zone := v]]) zs b
     = b[row := fold (\<lambda>zone r. r[zone := v]) zs (b ! row)]"
proof (induction zs arbitrary: b)
  case Nil
  then show ?case by simp
next
  case (Cons z zs)
  show ?case
  proof (cases "row < length b")
    case True
    then show ?thesis by (simp add: Cons.IH)
  next
    case False
    then show ?thesis by (simp add: Cons.IH list_update_beyond)
  qed
qed

lemma fold_set_zones:
  "n \<le> length r \<Longrightarrow>
   fold (\<lambda>zone r'. r'[zone := v]) [0..<n] r = replicate n v @ drop n r"
proof (induction n)
  case 0
  then show ?case by simp
next
  case (Suc n)
  then have n: "n < length r" by simp
  have "(replicate n v @ drop n r)[n := v] = replicate (Suc n) v @ drop (Suc n) r"
    using n by (simp add: list_update_append replicate_app_Cons_same
        Cons_nth_drop_Suc [symmetric])
  then show ?case using Suc by simp
qed

lemma matrix_fill_buffer_ok:
  assumes "buffer_ok buf"
  shows "matrix_fill_buffer v buf = replicate MATRIX_ROWS (replicate MATRIX_NUM_ZONES v)"
proof -
  let ?g = "fold (\<lambda>zone r'. r'[zone := v]) [0..<Suc MATRIX_MAX_ZONE_INDEX]"
  have len: "length buf = MATRIX_ROWS" "\<And>r. r \<in> set buf \<Longrightarrow> length r = MATRIX_NUM_ZONES"
    using assms by (simp_all add: buffer_ok_def list_all_iff)
  have z: "Suc MATRIX_MAX_ZONE_INDEX = MATRIX_NUM_ZONES"
    by (simp add: MATRIX_MAX_ZONE_INDEX_def MATRIX_NUM_ZONES_def MATRIX_COLUMNS_def)
  have "matrix_fill_buffer v buf = map ?g buf"
    unfolding matrix_fill_buffer_def fold_zone_update using len(1) by (rule fold_rows_map)
  also have "\<dots> = map (\<lambda>r. replicate MATRIX_NUM_ZONES v) buf"
    by (rule map_cong) (simp_all add: z fold_set_zones len(2))
  also have "\<dots> = replicate MATRIX_ROWS (replicate MATRIX_NUM_ZONES v)"
    using len(1) by (simp add: map_replicate_const)
  finally show ?thesis .
qed

lemma after_slide_tmp: "tmp_1 after_slide = 1 \<and> tmp_2 after_slide = 115"
  by (simp add: after_slide_def start_animation_def do_animation_def anim_slide_def
      pause_check_def fill_def Let_def msg_HI_def initial_engine_def clock_tick_def
      MATRIX_MAX_CHRS_def MATRIX_COLUMNS_def FONT_PITCH_def)

text \<open>Routine 0 never changes the routine; routine 19 changes it to 0 at most.\<close>

lemma scroll_keeps_routine:
  "routine s = 0 \<Longrightarrow> routine (do_animation fnt tk s) = 0"
  by (simp add: do_animation_def anim_smooth_scroll_def pause_check_def Let_def fill_def)

lemma scroll_keeps_routine_fold:
  "routine s = 0 \<Longrightarrow> routine (fold (do_animation fnt) tks s) = 0"
  by (induction tks arbitrary: s) (simp_all add: scroll_keeps_routine)

lemma pacman_step:
  assumes "routine s = 19"
  shows "fetch_next_msg (do_animation fnt tk s) = fetch_next_msg s"
    and "routine (do_animation fnt tk s) = 19 \<or> routine (do_animation fnt tk s) = 0"
  using assms
  by (auto simp: do_animation_def anim_pacman_def pause_check_def fill_def Let_def)

lemma pacman_run:
  "routine s = 19 \<Longrightarrow> routine (fold (do_animation fnt) tks s) = 19 \<Longrightarrow>
   fetch_next_msg (fold (do_animation fnt) tks s) = fetch_next_msg s"
proof (induction tks arbitrary: s)
  case Nil
  then show ?case by simp
next
  case (Cons tk tks)
  have "routine (do_animation fnt tk s) = 19"
  proof (rule ccontr)
    assume "routine (do_animation fnt tk s) \<noteq> 19"
    then have "routine (do_animation fnt tk s) = 0"
      using pacman_step(2) [OF Cons.prems(1), of fnt tk] by simp
    then have "routine (fold (do_animation fnt) (tk # tks) s) = 0"
      by (simp add: scroll_keeps_routine_fold)
    then show False using Cons.prems(2) by simp
  qed
  then show ?case
    using Cons.IH [of "do_animation fnt tk s"] Cons.prems pacman_step(1) [OF Cons.prems(1)]
    by simp
qed

section \<open>The run of routine 19\<close>

lemma fold_invariant:
  "(\<And>x b. x \<in> set xs \<Longrightarrow> P b \<Longrightarrow> P (f x b)) \<Longrightarrow> P b \<Longrightarrow> P (fold f xs b)"
  by (induction xs arbitrary: b) simp_all

lemma buffer_ok_update:
  assumes "buffer_ok buf"
  shows "buffer_ok (buf[i := (buf ! i)[z := x]])"
proof -
  have len: "length buf = MATRIX_ROWS"
    and rows: "\<And>n. n < MATRIX_ROWS \<Longrightarrow> length (buf ! n) = MATRIX_NUM_ZONES"
    using assms by (simp_all add: buffer_ok_def list_all_length)
  have "length (buf[i := (buf ! i)[z := x]] ! n) = MATRIX_NUM_ZONES" if "n < MATRIX_ROWS" for n
    using that len rows [of n] by (cases "n = i") simp_all
  then show ?thesis using len by (simp add: buffer_ok_def list_all_length)
qed

lemma buffer_ok_draw_pixel:
  "buffer_ok buf \<Longrightarrow> buffer_ok (matrix_draw_pixel column row v buf)"
  by (simp add: matrix_draw_pixel_def Let_def buffer_ok_update)

lemma buffer_ok_erase_columns:
  "buffer_ok buf \<Longrightarrow> buffer_ok (erase_columns first n buf)"
  unfolding erase_columns_def
  by (intro fold_invariant [where P = buffer_ok] buffer_ok_draw_pixel)

lemma buffer_ok_draw_pacman:
  "buffer_ok buf \<Longrightarrow> buffer_ok (draw_pacman frame first buf)"
  unfolding draw_pacman_def
  by (intro fold_invariant [where P = buffer_ok] buffer_ok_draw_pixel)

lemma buffer_ok_blank: "buffer_ok (replicate MATRIX_ROWS (replicate MATRIX_NUM_ZONES v))"
  by (simp add: buffer_ok_def list_all_iff)

lemma buffer_ok_pacman_step:
  assumes "routine s = 19" "buffer_ok (display_buffer s)"
  shows "buffer_ok (display_buffer (do_animation fnt tk s))"
  using assms
  by (simp add: do_animation_def anim_pacman_def pause_check_def fill_def Let_def
      buffer_ok_erase_columns buffer_ok_draw_pacman matrix_fill_buffer_ok buffer_ok_blank)

lemma pacman_ctl_step:
  "routine s = 19 \<Longrightarrow>
   pacman_ctl (do_animation fnt tk s) = pacman_next (l_millis tk) (pacman_ctl s)"
  by (simp add: pacman_ctl_def do_animation_def anim_pacman_def pause_check_def fill_def
      Let_def)

lemma pacman_next_stuck:
  "fst c \<noteq> 19 \<Longrightarrow> fold pacman_next ls c = c"
proof (induction ls)
  case Nil
  then show ?case by simp
next
  case (Cons l ls)
  have "pacman_next l c = c" using Cons.prems by (cases c) simp
  then show ?case using Cons by simp
qed

lemma pacman_ctl_fold:
  "fst (fold pacman_next (map l_millis tks) (pacman_ctl s)) = 19 \<Longrightarrow>
   pacman_ctl (fold (do_animation fnt) tks s)
     = fold pacman_next (map l_millis tks) (pacman_ctl s)"
proof (induction tks arbitrary: s)
  case Nil
  then show ?case by simp
next
  case (Cons tk tks)
  have r: "routine s = 19"
  proof (rule ccontr)
    assume "routine s \<noteq> 19"
    then have "fst (pacman_ctl s) \<noteq> 19" by (simp add: pacman_ctl_def)
    then have "fold pacman_next (map l_millis (tk # tks)) (pacman_ctl s) = pacman_ctl s"
      by (rule pacman_next_stuck)
    then show False using Cons.prems \<open>fst (pacman_ctl s) \<noteq> 19\<close> by simp
  qed
  show ?case using Cons.IH [of "do_animation fnt tk s"] Cons.prems
    by (simp add: pacman_ctl_step [OF r])
qed

lemma pacman_ctl_start: "pacman_ctl pacman_start = (19, 0, 0, 0, 0)"
  by (simp add: pacman_ctl_def pacman_start_def start_animation_def Let_def msg_HI_def
      initial_engine_def)

lemma pacman_control_73:
  "fold pacman_next (map l_millis (clock_ticks 1000 150 73)) (19, 0, 0, 0, 0)
     = (19, 11800, 1, 0, 1)"
  by code_simp

lemma pacman_ctl_before_edge: "pacman_ctl pacman_before_edge = (19, 11800, 1, 0, 1)"
  unfolding pacman_before_edge_def
  using pacman_ctl_fold [of "clock_ticks 1000 150 73" pacman_start test_font]
  by (simp add: pacman_ctl_start pacman_control_73)

lemma buffer_ok_pacman_run:
  "routine s = 19 \<Longrightarrow> buffer_ok (display_buffer s) \<Longrightarrow>
   routine (fold (do_animation fnt) tks s) = 19 \<Longrightarrow>
   buffer_ok (display_buffer (fold (do_animation fnt) tks s))"
proof (induction tks arbitrary: s)
  case Nil
  then show ?case by simp
next
  case (Cons tk tks)
  have "routine (do_animation fnt tk s) = 19"
  proof (rule ccontr)
    assume "routine (do_animation fnt tk s) \<noteq> 19"
    then have "routine (do_animation fnt tk s) = 0"
      using pacman_step(2) [OF Cons.prems(1), of fnt tk] by simp
    then have "routine (fold (do_animation fnt) (tk # tks) s) = 0"
      by (simp add: scroll_keeps_routine_fold)
    then show False using Cons.prems(3) by simp
  qed
  then show ?case
    using Cons.IH [of "do_animation fnt tk s"] Cons.prems
      buffer_ok_pacman_step [OF Cons.prems(1,2), of fnt tk]
    by simp
qed

lemma pacman_frame_buffer:
  assumes "routine s = 19" "anim_prev_millis s \<noteq> 0"
    and "state s <s 2" "100 < l_millis tk - anim_prev_millis s"
  shows "display_buffer (do_animation fnt tk s)
           = erase_columns (tmp_1 s + 8) 8 (draw_pacman (tmp_2 s) (tmp_1 s) (display_buffer s))"
  using assms
  by (simp add: do_animation_def anim_pacman_def pause_check_def Let_def)

lemma pacman_move_buffer:
  assumes "routine s = 19" "anim_prev_millis s \<noteq> 0"
    and "state s = 2" "- 8 <s tmp_1 s"
  shows "display_buffer (do_animation fnt tk s) = display_buffer s"
  using assms
  by (simp add: do_animation_def anim_pacman_def pause_check_def Let_def word_sless_alt)

lemma draw_pixel_keeps_sprite:
  assumes "sprite_lit buf" "column \<noteq> 1 \<or> row \<noteq> 1"
  shows "sprite_lit (matrix_draw_pixel column row v buf)"
proof (cases "column <s 0 \<or> of_nat (MATRIX_COLUMNS - 1) <s column
         \<or> row <s 0 \<or> of_nat (MATRIX_ROWS - 1) <s row")
  case True
  then show ?thesis using assms(1) by (simp add: matrix_draw_pixel_def)
next
  case False
  have ok: "buffer_ok buf" and lit: "bit (buf ! 1 ! 0) 1"
    using assms(1) by (simp_all add: sprite_lit_def)
  have len: "length buf = 8" "length (buf ! 1) = 15"
    using ok by (simp_all add: buffer_ok_def list_all_length MATRIX_ROWS_def
        MATRIX_NUM_ZONES_def MATRIX_COLUMNS_def)
  have c: "unat column = 1 \<longleftrightarrow> column = 1" "unat row = 1 \<longleftrightarrow> row = 1"
    by (simp_all add: word_unat_eq_iff)
  have dm: "unat column = 8 * (unat column div 8) + unat column mod 8" by simp
  have other: "unat row \<noteq> 1 \<or> unat column div 8 \<noteq> 0 \<or> unat column mod 8 \<noteq> 1"
    using assms(2) c dm by (metis add.commute add.right_neutral mult_zero_right)
  have "bit (matrix_draw_pixel column row v buf ! 1 ! 0) 1"
  proof (cases "unat row = 1")
    case r: True
    show ?thesis
    proof (cases "unat column div 8 = 0")
      case z: True
      then have b: "unat column mod 8 \<noteq> 1" using other r by simp
      then show ?thesis using False r z lit len
        by (simp add: matrix_draw_pixel_def Let_def bit_simps)
    next
      case z: False
      then show ?thesis using False r lit len
        by (simp add: matrix_draw_pixel_def Let_def)
    qed
  next
    case r: False
    then show ?thesis using False lit len
      by (simp add: matrix_draw_pixel_def Let_def)
  qed
  then show ?thesis using ok by (simp add: sprite_lit_def buffer_ok_draw_pixel)
qed

lemma draw_pixel_sets_sprite:
  assumes "buffer_ok buf" "v \<noteq> 0"
  shows "sprite_lit (matrix_draw_pixel 1 1 v buf)"
proof -
  have len: "length buf = 8" "length (buf ! 1) = 15"
    using assms(1) by (simp_all add: buffer_ok_def list_all_length MATRIX_ROWS_def
        MATRIX_NUM_ZONES_def MATRIX_COLUMNS_def)
  have "bit (matrix_draw_pixel 1 1 v buf ! 1 ! 0) 1"
    using assms(2) len
    by (simp add: matrix_draw_pixel_def Let_def bit_simps MATRIX_COLUMNS_def MATRIX_ROWS_def
        word_sless_alt)
  then show ?thesis using assms(1) by (simp add: sprite_lit_def buffer_ok_draw_pixel)
qed

lemma of_nat16_neq_1: "n \<noteq> 1 \<Longrightarrow> n < 65536 \<Longrightarrow> (of_nat n :: int16) \<noteq> 1"
  using of_nat16_eq [of n 1] by simp

lemma erase_keeps_sprite:
  assumes "sprite_lit buf"
  shows "sprite_lit (erase_columns 8 8 buf)"
proof -
  have keep: "sprite_lit (fold (\<lambda>row b'. matrix_draw_pixel (of_nat col + 8) (of_nat row) 0 b')
                            [0..<MATRIX_ROWS] b)"
    if "col \<in> set [0..<8]" "sprite_lit b" for col b
  proof (rule fold_invariant [where P = sprite_lit])
    show "sprite_lit b" by (rule that(2))
  next
    fix row :: nat and b' :: buffer
    assume b': "sprite_lit b'"
    have "col + 8 \<noteq> 1" "col + 8 < 65536" using that(1) by simp_all
    then have "(of_nat (col + 8) :: int16) \<noteq> 1" by (rule of_nat16_neq_1)
    then have "(of_nat col + 8 :: int16) \<noteq> 1" by simp
    then show "sprite_lit (matrix_draw_pixel (of_nat col + 8) (of_nat row) 0 b')"
      using b' by (intro draw_pixel_keeps_sprite) simp_all
  qed
  show ?thesis
    unfolding erase_columns_def
    by (rule fold_invariant [where P = sprite_lit]) (simp_all only: keep assms)
qed

lemma draw_pacman_sets_sprite:
  assumes "buffer_ok buf"
  shows "sprite_lit (draw_pacman 1 0 buf)"
proof -
  let ?px = "\<lambda>col row b. matrix_draw_pixel (of_nat col + 0) (of_nat row)
                (ucast (bitRead (pacman ! unat (1 :: int16) ! col) row)) b"
  let ?column = "\<lambda>col b. fold (?px col) [0..<MATRIX_ROWS] b"
  have cols: "[0..<8] = 0 # 1 # [2..<8]" and rows: "[0..<MATRIX_ROWS] = 0 # 1 # [2..<8]"
    by (simp_all add: upt_conv_Cons MATRIX_ROWS_def)
  have ok0: "buffer_ok (?px 1 0 (?column 0 buf))"
    using assms by (intro buffer_ok_draw_pixel fold_invariant [where P = buffer_ok])
  have v: "(ucast (bitRead (pacman ! unat (1 :: int16) ! 1) 1) :: int16) \<noteq> 0"
    by (simp add: pacman_def bitRead_def)
  have lit: "sprite_lit (?px 1 1 (?px 1 0 (?column 0 buf)))"
    using draw_pixel_sets_sprite [OF ok0 v] by simp
  have rest_rows: "sprite_lit (fold (?px 1) [2..<8] (?px 1 1 (?px 1 0 (?column 0 buf))))"
  proof (rule fold_invariant [where P = sprite_lit])
    show "sprite_lit (?px 1 1 (?px 1 0 (?column 0 buf)))" by (rule lit)
  next
    fix row :: nat and b :: buffer
    assume "row \<in> set [2..<8]" and b: "sprite_lit b"
    then have "row \<noteq> 1" "row < 65536" by auto
    then have "(of_nat row :: int16) \<noteq> 1" by (rule of_nat16_neq_1)
    then show "sprite_lit (?px 1 row b)" using b by (intro draw_pixel_keeps_sprite) simp_all
  qed
  have col1: "sprite_lit (?column 1 (?column 0 buf))"
    using rest_rows by (simp add: rows)
  have keep: "sprite_lit (?column col b)" if "col \<in> set [2..<8]" "sprite_lit b" for col b
  proof (rule fold_invariant [where P = sprite_lit])
    show "sprite_lit b" by (rule that(2))
  next
    fix row :: nat and b' :: buffer
    assume b': "sprite_lit b'"
    have "col \<noteq> 1" "col < 65536" using that(1) by auto
    then have "(of_nat col :: int16) \<noteq> 1" by (rule of_nat16_neq_1)
    then show "sprite_lit (?px col row b')" using b' by (intro draw_pixel_keeps_sprite) simp_all
  qed
  have "sprite_lit (fold ?column [2..<8] (?column 1 (?column 0 buf)))"
    by (rule fold_invariant [where P = sprite_lit]) (simp_all only: keep col1)
  then show ?thesis by (simp add: draw_pacman_def cols)
qed

lemma clock_ticks_75:
  "clock_ticks 1000 150 75 = clock_ticks 1000 150 73 @ [clock_tick 11950, clock_tick 12100]"
  by code_simp

lemma pacman_at_edge_facts:
  "pacman_ctl pacman_at_edge = (19, 12100, 0, - 8, 0)"
  "sprite_lit (display_buffer pacman_at_edge)"
  "\<not> fetch_next_msg pacman_at_edge"
proof -
  let ?s73 = pacman_before_edge
  let ?s74 = "do_animation test_font (clock_tick 11950) ?s73"
  let ?s75 = "do_animation test_font (clock_tick 12100) ?s74"
  have c73: "routine ?s73 = 19" "anim_prev_millis ?s73 = 11800" "state ?s73 = 1"
    "tmp_1 ?s73 = 0" "tmp_2 ?s73 = 1"
    using pacman_ctl_before_edge by (simp_all add: pacman_ctl_def)
  have start: "routine pacman_start = 19" "buffer_ok (display_buffer pacman_start)"
    "\<not> fetch_next_msg pacman_start"
    by (simp_all add: pacman_start_def start_animation_def Let_def msg_HI_def
        initial_engine_def buffer_ok_test_pattern)
  have ok73: "buffer_ok (display_buffer ?s73)"
    unfolding pacman_before_edge_def
    using c73(1) by (intro buffer_ok_pacman_run start) (simp add: pacman_before_edge_def)
  have f73: "\<not> fetch_next_msg ?s73"
    unfolding pacman_before_edge_def
    using pacman_run [OF start(1), of test_font "clock_ticks 1000 150 73"] c73(1) start(3)
    by (simp add: pacman_before_edge_def)
  have ctl74: "pacman_ctl ?s74 = (19, 11950, 2, 0, 0)"
    using pacman_ctl_step [OF c73(1), of test_font "clock_tick 11950"] pacman_ctl_before_edge
    by (simp add: clock_tick_def word_sless_alt MATRIX_COLUMNS_def)
  have c74: "routine ?s74 = 19" "anim_prev_millis ?s74 = 11950" "state ?s74 = 2"
    "tmp_1 ?s74 = 0" "tmp_2 ?s74 = 0"
    using ctl74 by (simp_all add: pacman_ctl_def)
  have b74: "display_buffer ?s74 = erase_columns 8 8 (draw_pacman 1 0 (display_buffer ?s73))"
    using pacman_frame_buffer [where s = ?s73 and tk = "clock_tick 11950" and fnt = test_font]
    by (simp add: c73 clock_tick_def word_sless_alt)
  have ctl75: "pacman_ctl ?s75 = (19, 12100, 0, - 8, 0)"
    using pacman_ctl_step [OF c74(1), of test_font "clock_tick 12100"] ctl74
    by (simp add: clock_tick_def word_sless_alt MATRIX_COLUMNS_def)
  have b75: "display_buffer ?s75 = display_buffer ?s74"
    using pacman_move_buffer [where s = ?s74 and tk = "clock_tick 12100" and fnt = test_font]
    by (simp add: c74 word_sless_alt)
  have e: "pacman_at_edge = ?s75"
    by (simp add: pacman_at_edge_def pacman_before_edge_def clock_ticks_75)
  show "pacman_ctl pacman_at_edge = (19, 12100, 0, - 8, 0)" using ctl75 e by simp
  show "sprite_lit (display_buffer pacman_at_edge)"
    using ok73 by (simp add: e b75 b74 erase_keeps_sprite draw_pacman_sets_sprite)
  show "\<not> fetch_next_msg pacman_at_edge"
    using f73 pacman_step(1) [OF c73(1), of test_font "clock_tick 11950"]
      pacman_step(1) [OF c74(1), of test_font "clock_tick 12100"] e by simp
qed

section \<open>The claims\<close>




text \<open>
  Claim C2, as amended. \<open>start_animation\<close> with a non-empty message records the routine,
  the speed, the pause interval and the message, sets \<open>state\<close> to 0, \<open>anim_prev_millis\<close>
  to 0, \<open>delay_prev_millis\<close> to the current clock and clears \<open>fetch_next_msg\<close>; it writes
  nothing else, so \<open>tmp_1\<close> and \<open>tmp_2\<close> keep the values the previous animation left.
\<close>

theorem start_animation_nonempty:
  assumes "msg \<noteq> []" "length msg < 65536"
  shows "start_animation rtn speed pause msg now s =
           s\<lparr>routine := rtn, animation_speed := ucast speed,
             interval := ucast (1000 * pause), msg_ptr := msg,
             msg_length := of_nat (length msg),
             state := 0, anim_prev_millis := 0, delay_prev_millis := now,
             fetch_next_msg := False\<rparr>
         \<and> state (start_animation rtn speed pause msg now s) = 0
         \<and> anim_prev_millis (start_animation rtn speed pause msg now s) = 0
         \<and> delay_prev_millis (start_animation rtn speed pause msg now s) = now
         \<and> tmp_1 (start_animation rtn speed pause msg now s) = tmp_1 s
         \<and> tmp_2 (start_animation rtn speed pause msg now s) = tmp_2 s"
proof -
  have "(of_nat (length msg) :: int16) \<noteq> 0"
    using assms of_nat16_eq [of "length msg" 0] by simp
  then show ?thesis by (simp add: start_animation_def Let_def)
qed

theorem start_animation_nonempty_witness:
  "msg_HI \<noteq> [] \<and> length msg_HI < 65536
   \<and> state (start_animation 0 5 20 msg_HI 5000 after_slide) = 0
   \<and> anim_prev_millis (start_animation 0 5 20 msg_HI 5000 after_slide) = 0
   \<and> delay_prev_millis (start_animation 0 5 20 msg_HI 5000 after_slide) = 5000
   \<and> tmp_1 (start_animation 0 5 20 msg_HI 5000 after_slide) = tmp_1 after_slide
   \<and> tmp_2 (start_animation 0 5 20 msg_HI 5000 after_slide) = tmp_2 after_slide"
  using start_animation_nonempty [of msg_HI 0 5 20 5000 after_slide]
  by (simp add: msg_HI_def)

text \<open>
  The claim as written has both scratch integers reset. After the sliding routine has been
  armed for a message, a new \<open>start_animation\<close> still finds \<open>tmp_1 = 1\<close> and
  \<open>tmp_2 = 115\<close>.
\<close>

theorem start_animation_counterexample:
  "msg_HI \<noteq> []
   \<and> tmp_1 (start_animation 0 5 20 msg_HI 5000 after_slide) = 1
   \<and> tmp_2 (start_animation 0 5 20 msg_HI 5000 after_slide) = 115"
  using after_slide_tmp by (simp add: start_animation_def Let_def msg_HI_def)

text \<open>
  Claim C3. \<open>start_animation\<close> with the empty string records its parameters and returns:
  \<open>msg_length\<close> is 0, and the frame buffer, \<open>anim_prev_millis\<close> and
  \<open>delay_prev_millis\<close> are as they were.
\<close>

theorem start_animation_empty:
  "start_animation rtn speed pause [] now s =
     s\<lparr>routine := rtn, animation_speed := ucast speed,
       interval := ucast (1000 * pause), msg_ptr := [], msg_length := 0\<rparr>
   \<and> msg_length (start_animation rtn speed pause [] now s) = 0
   \<and> display_buffer (start_animation rtn speed pause [] now s) = display_buffer s
   \<and> anim_prev_millis (start_animation rtn speed pause [] now s) = anim_prev_millis s
   \<and> delay_prev_millis (start_animation rtn speed pause [] now s) = delay_prev_millis s"
  by (simp add: start_animation_def Let_def)

text \<open>
  Claim C4. On any frame buffer of the display's dimensions, \<open>n\<close> calls of
  \<open>matrix_rotate_buffer(DIRECTION_LEFT)\<close> followed by \<open>n\<close> calls of
  \<open>matrix_rotate_buffer(DIRECTION_RIGHT)\<close> give back the buffer, byte for byte. This holds
  for every \<open>n\<close>, so in particular for \<open>1 \<le> n \<le> MATRIX_COLUMNS\<close>.
\<close>

theorem rotate_round_trip:
  "buffer_ok buf \<Longrightarrow>
   (matrix_rotate_buffer DIRECTION_RIGHT ^^ n) ((matrix_rotate_buffer DIRECTION_LEFT ^^ n) buf)
     = buf"
proof (induction n)
  case 0
  then show ?case by simp
next
  case (Suc n)
  have ok: "buffer_ok ((matrix_rotate_buffer DIRECTION_LEFT ^^ n) buf)"
    using Suc.prems by (rule buffer_ok_funpow_left)
  have "(matrix_rotate_buffer DIRECTION_RIGHT ^^ Suc n)
          ((matrix_rotate_buffer DIRECTION_LEFT ^^ Suc n) buf)
        = (matrix_rotate_buffer DIRECTION_RIGHT ^^ n)
            (matrix_rotate_buffer DIRECTION_RIGHT
               (matrix_rotate_buffer DIRECTION_LEFT
                  ((matrix_rotate_buffer DIRECTION_LEFT ^^ n) buf)))"
    by (simp add: funpow_swap1)
  also have "\<dots> = (matrix_rotate_buffer DIRECTION_RIGHT ^^ n)
                     ((matrix_rotate_buffer DIRECTION_LEFT ^^ n) buf)"
    using ok by (simp add: rotate_buffer_right_left)
  also have "\<dots> = buf" using Suc by simp
  finally show ?case .
qed

theorem rotate_round_trip_witness:
  "buffer_ok test_pattern \<and>
   (matrix_rotate_buffer DIRECTION_RIGHT ^^ 3)
     ((matrix_rotate_buffer DIRECTION_LEFT ^^ 3) test_pattern) = test_pattern"
  using rotate_round_trip [of test_pattern 3]
  by (simp add: buffer_ok_def test_pattern_def MATRIX_ROWS_def MATRIX_NUM_ZONES_def
      MATRIX_COLUMNS_def list_all_iff)

text \<open>
  Claim C5. On any frame buffer of the display's dimensions, \<open>MATRIX_COLUMNS\<close> (120) calls
  of \<open>matrix_rotate_buffer(DIRECTION_LEFT)\<close> give back the buffer, byte for byte.
\<close>

theorem rotate_full_period:
  assumes "buffer_ok buf"
  shows "(matrix_rotate_buffer DIRECTION_LEFT ^^ MATRIX_COLUMNS) buf = buf"
proof -
  have "map (rotate_left_row ^^ MATRIX_COLUMNS) buf = map (\<lambda>r. r) buf"
    by (rule map_cong)
       (use assms in \<open>auto simp: buffer_ok_def list_all_iff funpow_rotate_left_row_period\<close>)
  then show ?thesis using assms by (simp add: funpow_rotate_buffer_left_map)
qed

theorem rotate_full_period_witness:
  "buffer_ok test_pattern \<and>
   (matrix_rotate_buffer DIRECTION_LEFT ^^ MATRIX_COLUMNS) test_pattern = test_pattern"
  using rotate_full_period [of test_pattern]
  by (simp add: buffer_ok_def test_pattern_def MATRIX_ROWS_def MATRIX_NUM_ZONES_def
      MATRIX_COLUMNS_def list_all_iff)

text \<open>
  Claim C6. A call of \<open>do_animation\<close> made while the routine is 19 leaves
  \<open>fetch_next_msg\<close> as it was. After the call the routine is 19 or 0; it is 0 exactly
  when the routine was armed, no frame was due and the sprite column \<open>tmp_1\<close> had reached
  \<open>-8\<close>, and then the frame buffer has been cleared by \<open>matrix_fill_buffer(0x00)\<close>:
  every byte of the 8 rows of 15 zones is 0.
  Over a sequence of calls: as long as the routine is still 19 before a call, the flag after
  that call is the flag the sequence started with, so the call that changes the routine to 0
  is not preceded or accompanied by a completion signal.
\<close>

theorem pacman_no_completion:
  assumes "routine s = 19"
  shows "fetch_next_msg (do_animation fnt tk s) = fetch_next_msg s
         \<and> (routine (do_animation fnt tk s) = 19 \<or> routine (do_animation fnt tk s) = 0)
         \<and> (routine (do_animation fnt tk s) = 0 \<longleftrightarrow>
              anim_prev_millis s \<noteq> 0
              \<and> \<not> (state s <s 2 \<and> 100 < l_millis tk - anim_prev_millis s)
              \<and> tmp_1 s \<le>s - 8)
         \<and> (routine (do_animation fnt tk s) = 0 \<longrightarrow>
              display_buffer (do_animation fnt tk s)
                = matrix_fill_buffer 0 (display_buffer s))
         \<and> (buffer_ok (display_buffer s) \<longrightarrow> routine (do_animation fnt tk s) = 0 \<longrightarrow>
              display_buffer (do_animation fnt tk s)
                = replicate MATRIX_ROWS (replicate MATRIX_NUM_ZONES 0))
         \<and> (routine (fold (do_animation fnt) tks s) = 19 \<longrightarrow>
              fetch_next_msg (fold (do_animation fnt) (tks @ [tk]) s) = fetch_next_msg s)"
proof -
  have run: "routine (fold (do_animation fnt) tks s) = 19 \<Longrightarrow>
        fetch_next_msg (fold (do_animation fnt) (tks @ [tk]) s) = fetch_next_msg s"
    using pacman_run [OF assms, of fnt tks]
      pacman_step(1) [of "fold (do_animation fnt) tks s" fnt tk] by simp
  have handover: "routine (do_animation fnt tk s) = 0 \<Longrightarrow>
        display_buffer (do_animation fnt tk s) = matrix_fill_buffer 0 (display_buffer s)"
    using assms
    by (auto simp: do_animation_def anim_pacman_def pause_check_def fill_def Let_def
        split: if_splits)
  have cleared: "buffer_ok (display_buffer s) \<Longrightarrow> routine (do_animation fnt tk s) = 0 \<Longrightarrow>
        display_buffer (do_animation fnt tk s)
          = replicate MATRIX_ROWS (replicate MATRIX_NUM_ZONES 0)"
    using handover by (simp add: matrix_fill_buffer_ok)
  have cond: "routine (do_animation fnt tk s) = 0 \<longleftrightarrow>
              anim_prev_millis s \<noteq> 0
              \<and> \<not> (state s <s 2 \<and> 100 < l_millis tk - anim_prev_millis s)
              \<and> tmp_1 s \<le>s - 8"
    using assms
    by (auto simp: do_animation_def anim_pacman_def pause_check_def fill_def Let_def
      word_sless_alt word_sle_eq)
  show ?thesis
    using pacman_step [OF assms, of fnt tk] run handover cleared cond by blast
qed

theorem pacman_no_completion_witness:
  "routine pacman_start = 19 \<and> \<not> fetch_next_msg pacman_start
   \<and> display_buffer pacman_start = test_pattern
   \<and> routine pacman_at_edge = 19 \<and> \<not> fetch_next_msg pacman_at_edge
   \<and> buffer_ok (display_buffer pacman_at_edge)
   \<and> display_buffer pacman_at_edge \<noteq> replicate MATRIX_ROWS (replicate MATRIX_NUM_ZONES 0)
   \<and> routine (do_animation test_font (clock_tick 12110) pacman_at_edge) = 0
   \<and> \<not> fetch_next_msg (do_animation test_font (clock_tick 12110) pacman_at_edge)
   \<and> display_buffer (do_animation test_font (clock_tick 12110) pacman_at_edge)
       = replicate MATRIX_ROWS (replicate MATRIX_NUM_ZONES 0)
   \<and> \<not> fetch_next_msg
        (fold (do_animation test_font) (clock_ticks 1000 150 75 @ [clock_tick 12110])
           pacman_start)"
proof -
  have start: "routine pacman_start = 19" "\<not> fetch_next_msg pacman_start"
    "display_buffer pacman_start = test_pattern"
    by (simp_all add: pacman_start_def start_animation_def Let_def msg_HI_def
        initial_engine_def)
  have c: "routine pacman_at_edge = 19" "anim_prev_millis pacman_at_edge = 12100"
    "state pacman_at_edge = 0" "tmp_1 pacman_at_edge = - 8"
    using pacman_at_edge_facts(1) by (simp_all add: pacman_ctl_def)
  have lit: "buffer_ok (display_buffer pacman_at_edge)"
    "bit (display_buffer pacman_at_edge ! 1 ! 0) 1"
    using pacman_at_edge_facts(2) by (simp_all add: sprite_lit_def)
  have "\<not> bit (replicate MATRIX_ROWS (replicate MATRIX_NUM_ZONES (0 :: byte)) ! 1 ! 0) 1"
    by (simp add: MATRIX_ROWS_def MATRIX_NUM_ZONES_def MATRIX_COLUMNS_def)
  then have nonblank:
    "display_buffer pacman_at_edge \<noteq> replicate MATRIX_ROWS (replicate MATRIX_NUM_ZONES 0)"
    using lit(2) by metis
  note at_edge = pacman_no_completion [OF c(1), of test_font "clock_tick 12110" "[]"]
  have over: "routine (do_animation test_font (clock_tick 12110) pacman_at_edge) = 0"
    using at_edge by (simp add: c clock_tick_def word_sle_eq word_sless_alt)
  have edge: "routine (do_animation test_font (clock_tick 12110) pacman_at_edge) = 0
      \<and> \<not> fetch_next_msg (do_animation test_font (clock_tick 12110) pacman_at_edge)
      \<and> display_buffer (do_animation test_font (clock_tick 12110) pacman_at_edge)
          = replicate MATRIX_ROWS (replicate MATRIX_NUM_ZONES 0)"
    using at_edge over pacman_at_edge_facts(3) lit(1) by blast
  have run: "\<not> fetch_next_msg
        (fold (do_animation test_font) (clock_ticks 1000 150 75 @ [clock_tick 12110])
           pacman_start)"
    using pacman_no_completion [OF start(1), of test_font "clock_tick 12110"
        "clock_ticks 1000 150 75"] c(1) start(2)
    by (simp add: pacman_at_edge_def)
  show ?thesis
    using start c(1) pacman_at_edge_facts(3) lit(1) nonblank edge run by simp
qed

text \<open>
  Claim C7. For a character count \<open>n\<close> (a non-negative \<open>int\<close>), the \<open>DT_ALIGN_CENTER\<close>
  case of \<open>matrix_draw_text\<close> starts at column
  \<open>MATRIX_COLUMNS div 2 - (n * FONT_PITCH) div 2\<close> and index 0 when
  \<open>n \<le> MATRIX_MAX_CHRS\<close>, and at column 0 and index \<open>(n - MATRIX_MAX_CHRS) div 2\<close>
  otherwise, the divisions rounding down; a count of 5 gives column 48 and index 0.
\<close>

theorem center_layout:
  assumes "n < 32768"
  shows "draw_text_start (of_nat n) DT_ALIGN_CENTER =
           (if n \<le> MATRIX_MAX_CHRS
            then (of_nat (MATRIX_COLUMNS div 2 - (n * FONT_PITCH) div 2), 0)
            else (0, of_nat ((n - MATRIX_MAX_CHRS) div 2)))"
proof (cases "n \<le> 24")
  case True
  have le: "(of_nat n :: int16) \<le>s 24" using of_nat16_sle [of n 24] True by simp
  have "(of_nat n :: int16) * 5 = of_nat (n * 5)" by simp
  then have "sint ((of_nat n :: int16) * 5) = int (n * 5)"
    using True sint_of_nat16 [of "n * 5"] by simp
  then have "c_div ((of_nat n :: int16) * 5) 2 = of_nat ((n * 5) div 2)"
    using sdiv_nat [of "n * 5" 2] by (simp add: c_div_def)
  moreover have "c_div 120 2 = 60" by (simp add: c_div_def signed_divide_int_def)
  moreover have "(n * 5) div 2 \<le> 60" using True by simp
  ultimately show ?thesis using True le
    by (simp add: draw_text_start_def MATRIX_MAX_CHRS_def MATRIX_COLUMNS_def FONT_PITCH_def
        DT_ALIGN_CENTER_def)
next
  case False
  then have gt: "24 < n" by simp
  have le: "\<not> (of_nat n :: int16) \<le>s 24" using of_nat16_sle [of n 24] assms gt by simp
  have "(of_nat n :: int16) - 24 = of_nat (n - 24)" using gt by simp
  then have "sint ((of_nat n :: int16) - 24) = int (n - 24)"
    using assms sint_of_nat16 [of "n - 24"] by simp
  then have "c_div ((of_nat n :: int16) - 24) 2 = of_nat ((n - 24) div 2)"
    using sdiv_nat [of "n - 24" 2] by (simp add: c_div_def)
  then show ?thesis using gt le
    by (simp add: draw_text_start_def MATRIX_MAX_CHRS_def MATRIX_COLUMNS_def FONT_PITCH_def
        DT_ALIGN_CENTER_def)
qed

theorem center_layout_witness:
  "(5 :: nat) < 32768 \<and> draw_text_start 5 DT_ALIGN_CENTER = (48, 0)
   \<and> (24 :: nat) < 32768 \<and> draw_text_start 24 DT_ALIGN_CENTER = (0, 0)
   \<and> (27 :: nat) < 32768 \<and> draw_text_start 27 DT_ALIGN_CENTER = (0, 1)"
  using center_layout [of 5] center_layout [of 24] center_layout [of 27]
  by (simp add: MATRIX_MAX_CHRS_def MATRIX_COLUMNS_def FONT_PITCH_def)

text \<open>
  Claim C8. \<open>start_animation\<close> with a non-empty message clears \<open>fetch_next_msg\<close> itself;
  with the empty string it leaves the flag as it was.
\<close>

theorem start_animation_clears_flag:
  "(msg \<noteq> [] \<and> length msg < 65536 \<longrightarrow>
      \<not> fetch_next_msg (start_animation rtn speed pause msg now s))
   \<and> fetch_next_msg (start_animation rtn speed pause [] now s) = fetch_next_msg s"
proof -
  have "msg \<noteq> [] \<and> length msg < 65536 \<Longrightarrow> (of_nat (length msg) :: int16) \<noteq> 0"
    using of_nat16_eq [of "length msg" 0] by simp
  then show ?thesis by (auto simp: start_animation_def Let_def)
qed

theorem start_animation_clears_flag_witness:
  "msg_HI \<noteq> [] \<and> length msg_HI < 65536 \<and> fetch_next_msg initial_engine
   \<and> \<not> fetch_next_msg (start_animation 0 5 20 msg_HI 900 initial_engine)
   \<and> fetch_next_msg (start_animation 0 5 20 [] 900 initial_engine)"
  using start_animation_clears_flag [of msg_HI 0 5 20 900 initial_engine]
  by (simp add: msg_HI_def initial_engine_def)

text \<open>
  Claim C9. \<open>matrix_shiftin_chr\<close> called with \<open>bit_index < 0\<close> or \<open>bit_index > 7\<close>
  returns the frame buffer as it was: the bounds check comes before the shift.
\<close>

theorem shiftin_chr_out_of_range:
  "bit_index <s 0 \<or> 7 <s bit_index \<Longrightarrow>
   matrix_shiftin_chr fnt c bit_index shift_dir buf = buf"
  by (simp add: matrix_shiftin_chr_def)

theorem shiftin_chr_out_of_range_witness:
  "((- 1 :: int16) <s 0 \<or> 7 <s (- 1 :: int16))
   \<and> matrix_shiftin_chr test_font 0x41 (- 1) DIRECTION_LEFT test_pattern = test_pattern
   \<and> ((8 :: int16) <s 0 \<or> 7 <s (8 :: int16))
   \<and> matrix_shiftin_chr test_font 0x41 8 DIRECTION_LEFT test_pattern = test_pattern"
  using shiftin_chr_out_of_range [where bit_index = "- 1" and fnt = test_font and c = "0x41"
      and shift_dir = DIRECTION_LEFT and buf = test_pattern]
    shiftin_chr_out_of_range [where bit_index = 8 and fnt = test_font and c = "0x41"
      and shift_dir = DIRECTION_LEFT and buf = test_pattern]
  by (simp add: word_sless_alt)

text \<open>
  Claim C10. \<open>matrix_rotate_buffer\<close> called with a direction that is neither
  \<open>DIRECTION_LEFT\<close> nor \<open>DIRECTION_RIGHT\<close> (so also with \<open>DIRECTION_UP\<close> and
  \<open>DIRECTION_DOWN\<close>) leaves the frame buffer unchanged.
\<close>

theorem rotate_other_direction:
  "roll_dir \<noteq> DIRECTION_LEFT \<Longrightarrow> roll_dir \<noteq> DIRECTION_RIGHT \<Longrightarrow>
   matrix_rotate_buffer roll_dir buf = buf"
  by (simp add: matrix_rotate_buffer_def)

theorem rotate_other_direction_witness:
  "DIRECTION_UP \<noteq> DIRECTION_LEFT \<and> DIRECTION_UP \<noteq> DIRECTION_RIGHT
   \<and> DIRECTION_DOWN \<noteq> DIRECTION_LEFT \<and> DIRECTION_DOWN \<noteq> DIRECTION_RIGHT
   \<and> matrix_rotate_buffer DIRECTION_UP test_pattern = test_pattern
   \<and> matrix_rotate_buffer DIRECTION_DOWN test_pattern = test_pattern"
  using rotate_other_direction [of DIRECTION_UP test_pattern]
    rotate_other_direction [of DIRECTION_DOWN test_pattern]
  by (simp add: DIRECTION_UP_def DIRECTION_DOWN_def DIRECTION_LEFT_def DIRECTION_RIGHT_def)

end
